theory Spec2Isabelle
  imports Main
begin

section \<open>Bytes and text\<close>

text \<open>
  Go strings and response bodies are byte sequences; they are modelled as \<open>string\<close>
  (a list of 8-bit \<open>char\<close>). Text outside ASCII is written as its UTF-8 bytes, as the
  Go source file stores it.
\<close>

type_synonym bytes = string

definition byte :: "char \<Rightarrow> nat" where
  "byte c = of_char c"

definition in_range :: "nat \<Rightarrow> nat \<Rightarrow> char \<Rightarrow> bool" where
  "in_range lo hi c = (lo \<le> byte c \<and> byte c \<le> hi)"

definition newline :: bytes where
  "newline = [CHR 0x0A]"

definition a_acute :: bytes where
  "a_acute = [CHR 0xC3, CHR 0xA1]"

definition E_acute :: bytes where
  "E_acute = [CHR 0xC3, CHR 0x89]"

definition replacement_char :: bytes where
  "replacement_char = [CHR 0xEF, CHR 0xBF, CHR 0xBD]"

subsection \<open>\<open>%d\<close>: decimal rendering of a Go \<open>int\<close>\<close>

fun digits_of :: "nat \<Rightarrow> bytes" where
  "digits_of n =
     (if n < 10 then [char_of (48 + n)]
      else digits_of (n div 10) @ [char_of (48 + n mod 10)])"

declare digits_of.simps [simp del]

definition format_int :: "int \<Rightarrow> bytes" where
  "format_int i = (if i < 0 then CHR ''-'' # digits_of (nat (- i)) else digits_of (nat i))"

section \<open>The JSON decoder used by the lookup\<close>

text \<open>
  \<open>GetUser\<close> hands the response body to \<open>json.NewDecoder(resp.Body).Decode\<close>. The
  decoder belongs to Go's standard library; the definitions below follow its documented
  behaviour (package \<open>encoding/json\<close>): the scanner's grammar and error contexts, the
  unquoting of string literals, and the rules by which an object is stored into a struct.
  The response body is taken to be delivered completely, so that the only end-of-input
  condition is the end of the body.
\<close>

datatype json_error =
    EOF
  | ErrUnexpectedEOF
  | SyntaxError char string
  | UnmarshalTypeError string

datatype json =
    JNull
  | JBool bool
  | JNumber bytes
  | JString bytes
  | JArray "json list"
  | JObject "(bytes \<times> json) list"

definition isSpace :: "char \<Rightarrow> bool" where
  "isSpace c = (c = CHR '' '' \<or> c = CHR 0x09 \<or> c = CHR 0x0D \<or> c = CHR 0x0A)"

definition isDigit :: "char \<Rightarrow> bool" where
  "isDigit c = in_range 48 57 c"

subsection \<open>Numbers\<close>

text \<open>
  The scanner states \<open>stateNeg\<close>, \<open>state0\<close>, \<open>state1\<close>, \<open>stateDot\<close>, \<open>stateDot0\<close>,
  \<open>stateE\<close>, \<open>stateESign\<close>, \<open>stateE0\<close>. Each function receives the input from its state
  on and returns the literal's remaining text and the input after the literal. A literal
  that the end of the body cuts short is \<open>ErrUnexpectedEOF\<close>.
\<close>

definition lex_exp :: "bytes \<Rightarrow> json_error + (bytes \<times> bytes)" where
  "lex_exp cs =
     (case cs of
        [] \<Rightarrow> Inr ([], [])
      | e # r \<Rightarrow>
          if e = CHR ''e'' \<or> e = CHR ''E'' then
            (let sign = (case r of [] \<Rightarrow> [] | s # _ \<Rightarrow> if s = CHR ''+'' \<or> s = CHR ''-'' then [s] else []);
                 r2 = drop (length sign) r
             in case r2 of
                  [] \<Rightarrow> Inl ErrUnexpectedEOF
                | d # _ \<Rightarrow>
                    if isDigit d then Inr (e # sign @ takeWhile isDigit r2, dropWhile isDigit r2)
                    else Inl (SyntaxError d ''in exponent of numeric literal''))
          else Inr ([], cs))"

definition lex_frac :: "bytes \<Rightarrow> json_error + (bytes \<times> bytes)" where
  "lex_frac cs =
     (case cs of
        [] \<Rightarrow> Inr ([], [])
      | p # r \<Rightarrow>
          if p = CHR ''.'' then
            (case r of
               [] \<Rightarrow> Inl ErrUnexpectedEOF
             | d # _ \<Rightarrow>
                 if isDigit d then Inr (p # takeWhile isDigit r, dropWhile isDigit r)
                 else Inl (SyntaxError d ''after decimal point in numeric literal''))
          else Inr ([], cs))"

definition lex_int :: "bytes \<Rightarrow> json_error + (bytes \<times> bytes)" where
  "lex_int cs =
     (case cs of
        [] \<Rightarrow> Inl ErrUnexpectedEOF
      | d # r \<Rightarrow>
          if d = CHR ''0'' then Inr ([d], r)
          else if in_range 49 57 d then Inr (d # takeWhile isDigit r, dropWhile isDigit r)
          else Inl (SyntaxError d ''in numeric literal''))"

definition lex_number :: "bytes \<Rightarrow> json_error + (bytes \<times> bytes)" where
  "lex_number cs =
     (let sign = (case cs of [] \<Rightarrow> [] | s # _ \<Rightarrow> if s = CHR ''-'' then [s] else [])
      in case lex_int (drop (length sign) cs) of
           Inl e \<Rightarrow> Inl e
         | Inr (ip, r1) \<Rightarrow>
             (case lex_frac r1 of
                Inl e \<Rightarrow> Inl e
              | Inr (fp, r2) \<Rightarrow>
                  (case lex_exp r2 of
                     Inl e \<Rightarrow> Inl e
                   | Inr (ep, r3) \<Rightarrow> Inr (sign @ ip @ fp @ ep, r3))))"

subsection \<open>String literals\<close>

text \<open>
  A string literal is checked by the scanner (\<open>stateInString\<close>, \<open>stateInStringEsc\<close>,
  \<open>stateInStringEscU\<close> and its successors) and turned into its bytes by \<open>unquote\<close>:
  escapes are replaced, the escapes of four hexadecimal digits become UTF-8 (a valid
  surrogate pair one code point, a lone surrogate U+FFFD), and bytes that are not
  well-formed UTF-8 become U+FFFD.
\<close>

definition dquote :: char where
  "dquote = CHR 0x22"

definition backslash :: char where
  "backslash = CHR 0x5C"

definition hex_val :: "char \<Rightarrow> nat option" where
  "hex_val c =
     (if in_range 48 57 c then Some (byte c - 48)
      else if in_range 97 102 c then Some (byte c - 87)
      else if in_range 65 70 c then Some (byte c - 55)
      else None)"

fun hex_digits :: "nat \<Rightarrow> nat \<Rightarrow> bytes \<Rightarrow> json_error + (nat \<times> bytes)" where
  "hex_digits 0 acc cs = Inr (acc, cs)"
| "hex_digits (Suc n) acc [] = Inl ErrUnexpectedEOF"
| "hex_digits (Suc n) acc (c # cs) =
     (case hex_val c of
        None \<Rightarrow> Inl (SyntaxError c (''in '' @ [backslash] @ ''u hexadecimal character escape''))
      | Some v \<Rightarrow> hex_digits n (16 * acc + v) cs)"

definition getu4 :: "bytes \<Rightarrow> nat option" where
  "getu4 cs =
     (case cs of
        b # u # r \<Rightarrow>
          if b = backslash \<and> u = CHR ''u'' then
            (case hex_digits 4 0 r of Inl _ \<Rightarrow> None | Inr (v, _) \<Rightarrow> Some v)
          else None
      | _ \<Rightarrow> None)"

definition utf8_encode :: "nat \<Rightarrow> bytes" where
  "utf8_encode r =
     (if r < 0x80 then [char_of r]
      else if r < 0x800 then [char_of (0xC0 + r div 64), char_of (0x80 + r mod 64)]
      else if (0xD800 \<le> r \<and> r < 0xE000) \<or> 0x10FFFF < r then replacement_char
      else if r < 0x10000 then
        [char_of (0xE0 + r div 4096), char_of (0x80 + (r div 64) mod 64), char_of (0x80 + r mod 64)]
      else
        [char_of (0xF0 + r div 262144), char_of (0x80 + (r div 4096) mod 64),
         char_of (0x80 + (r div 64) mod 64), char_of (0x80 + r mod 64)])"

definition is_cont :: "char \<Rightarrow> bool" where
  "is_cont c = in_range 0x80 0xBF c"

text \<open>
  \<open>utf8.DecodeRune\<close>: the size of the well-formed encoding at the head, or 0 where
  the function answers \<open>RuneError\<close>. The first byte gives the size and the range accepted
  for the second byte; the bytes after the second are continuation bytes.
\<close>

definition lead_size :: "char \<Rightarrow> nat" where
  "lead_size c0 =
     (if in_range 0xC2 0xDF c0 then 2
      else if in_range 0xE0 0xEF c0 then 3
      else if in_range 0xF0 0xF4 c0 then 4
      else 0)"

definition accept_lo :: "char \<Rightarrow> nat" where
  "accept_lo c0 = (if byte c0 = 0xE0 then 0xA0 else if byte c0 = 0xF0 then 0x90 else 0x80)"

definition accept_hi :: "char \<Rightarrow> nat" where
  "accept_hi c0 = (if byte c0 = 0xED then 0x9F else if byte c0 = 0xF4 then 0x8F else 0xBF)"

definition utf8_len :: "bytes \<Rightarrow> nat" where
  "utf8_len s =
     (case s of
        [] \<Rightarrow> 0
      | c0 # r \<Rightarrow>
          (let sz = lead_size c0
           in if sz = 0 \<or> length s < sz then 0
              else if \<not> in_range (accept_lo c0) (accept_hi c0) (s ! 1) then 0
              else if sz \<le> 2 then 2
              else if \<not> is_cont (s ! 2) then 0
              else if sz \<le> 3 then 3
              else if \<not> is_cont (s ! 3) then 0
              else 4))"

text \<open>The input after a backslash.\<close>

definition lex_escape :: "bytes \<Rightarrow> json_error + (bytes \<times> bytes)" where
  "lex_escape cs =
     (case cs of
        [] \<Rightarrow> Inl ErrUnexpectedEOF
      | e # r \<Rightarrow>
          if e = dquote \<or> e = backslash \<or> e = CHR ''/'' then Inr ([e], r)
          else if e = CHR ''b'' then Inr ([CHR 0x08], r)
          else if e = CHR ''f'' then Inr ([CHR 0x0C], r)
          else if e = CHR ''n'' then Inr ([CHR 0x0A], r)
          else if e = CHR ''r'' then Inr ([CHR 0x0D], r)
          else if e = CHR ''t'' then Inr ([CHR 0x09], r)
          else if e = CHR ''u'' then
            (case hex_digits 4 0 r of
               Inl err \<Rightarrow> Inl err
             | Inr (rr, r') \<Rightarrow>
                 if 0xD800 \<le> rr \<and> rr < 0xE000 then
                   (case getu4 r' of
                      None \<Rightarrow> Inr (replacement_char, r')
                    | Some rr1 \<Rightarrow>
                        if rr < 0xDC00 \<and> 0xDC00 \<le> rr1 \<and> rr1 < 0xE000
                        then Inr (utf8_encode (0x10000 + (rr - 0xD800) * 1024 + (rr1 - 0xDC00)),
                                  drop 6 r')
                        else Inr (replacement_char, r'))
                 else Inr (utf8_encode rr, r'))
          else Inl (SyntaxError e ''in string escape code''))"

text \<open>One element of a string's content, which does not start with the closing quote.\<close>

definition string_step :: "char \<Rightarrow> bytes \<Rightarrow> json_error + (bytes \<times> bytes)" where
  "string_step c cs =
     (if c = backslash then lex_escape cs
      else if byte c < 0x20 then Inl (SyntaxError c ''in string literal'')
      else if byte c < 0x80 then Inr ([c], cs)
      else (let n = utf8_len (c # cs)
            in if n = 0 then Inr (replacement_char, cs)
               else Inr (take n (c # cs), drop n (c # cs))))"

lemma hex_digits_length: "hex_digits n acc cs = Inr (v, r) \<Longrightarrow> length r \<le> length cs"
proof (induction n acc cs rule: hex_digits.induct)
  case (3 n acc c cs)
  then show ?case by (auto split: option.splits)
qed auto

lemma lex_escape_length:
  assumes "lex_escape cs = Inr (out, r)"
  shows "length r < length cs"
proof (cases cs)
  case Nil
  then show ?thesis using assms by (simp add: lex_escape_def)
next
  case (Cons e t)
  show ?thesis
  proof (cases "hex_digits 4 0 t")
    case (Inl err)
    then show ?thesis using assms Cons
      by (auto simp: lex_escape_def split: if_splits)
  next
    case (Inr p)
    obtain rr r' where p: "p = (rr, r')" by (cases p)
    have "length r' \<le> length t"
      using Inr p hex_digits_length by blast
    then show ?thesis using assms Cons Inr p
      by (auto simp: lex_escape_def split: if_splits option.splits)
  qed
qed

lemma string_step_length: "string_step c cs = Inr (out, r) \<Longrightarrow> length r \<le> length cs"
  by (auto simp: string_step_def Let_def split: if_splits dest: lex_escape_length)

text \<open>The input after the opening quote: the string's bytes and the input after it.\<close>

function lex_string :: "bytes \<Rightarrow> json_error + (bytes \<times> bytes)" where
  "lex_string [] = Inl ErrUnexpectedEOF"
| "lex_string (c # cs) =
     (if c = dquote then Inr ([], cs)
      else case string_step c cs of
             Inl e \<Rightarrow> Inl e
           | Inr (out, r) \<Rightarrow>
               (case lex_string r of
                  Inl e \<Rightarrow> Inl e
                | Inr (s, r') \<Rightarrow> Inr (out @ s, r')))"
  by pat_completeness auto
termination
  by (relation "measure length") (auto dest: string_step_length)

subsection \<open>The literals \<open>true\<close>, \<open>false\<close> and \<open>null\<close>\<close>

fun lex_literal :: "bytes \<Rightarrow> bytes \<Rightarrow> bytes \<Rightarrow> json_error + bytes" where
  "lex_literal name [] cs = Inr cs"
| "lex_literal name (x # xs) [] = Inl ErrUnexpectedEOF"
| "lex_literal name (x # xs) (c # cs) =
     (if c = x then lex_literal name xs cs
      else Inl (SyntaxError c
             (''in literal '' @ name @ '' (expecting '' @ [CHR 0x27, x, CHR 0x27] @ '')'')))"

subsection \<open>Reading one value\<close>

text \<open>
  \<open>Decoder.readValue\<close> runs the scanner over the body until the first top-level value is
  complete and stops there. \<open>scan\<close> follows the scanner's states \<open>stateBeginValue\<close>,
  \<open>stateBeginValueOrEmpty\<close>, \<open>stateBeginStringOrEmpty\<close>, \<open>stateBeginString\<close> and
  \<open>stateEndValue\<close>, with the scanner's stack of open arrays and objects, and builds the
  value on the way. An object whose next key is awaited or just read is held in the state
  (\<open>BeginString\<close>, \<open>EndKey\<close>); the stack holds the arrays and the objects whose member
  value is being read. More than 10000 open arrays and objects are refused
  (\<open>maxNestingDepth\<close>).
\<close>

datatype frame =
    InArray "json list"
  | InObjectValue "(bytes \<times> json) list" bytes

datatype scan_state =
    BeginValue
  | BeginValueOrEmpty
  | BeginStringOrEmpty
  | BeginString "(bytes \<times> json) list"
  | EndKey "(bytes \<times> json) list" bytes
  | EndValue json

definition maxNestingDepth :: nat where
  "maxNestingDepth = 10000"

lemma lex_int_length: "lex_int cs = Inr (t, r) \<Longrightarrow> length r < length cs"
  by (auto simp: lex_int_def length_dropWhile_le less_Suc_eq_le split: list.splits if_splits)

lemma lex_frac_length: "lex_frac cs = Inr (t, r) \<Longrightarrow> length r \<le> length cs"
  by (auto simp: lex_frac_def length_dropWhile_le le_SucI split: list.splits if_splits)

lemma length_dropWhile_Suc:
  "length (dropWhile P xs) \<le> Suc (length xs)"
  "length (dropWhile P xs) \<le> Suc (Suc (length xs))"
  "length (dropWhile P xs) \<le> Suc (Suc (Suc (length xs)))"
  using length_dropWhile_le [of P xs] by simp_all

lemma lex_exp_length:
  assumes a: "lex_exp cs = Inr (t, r)"
  shows "length r \<le> length cs"
  using a
  by (auto simp: lex_exp_def Let_def length_dropWhile_le length_dropWhile_Suc
      split: list.splits if_splits)

lemma lex_number_length:
  assumes "lex_number cs = Inr (t, r)"
  shows "length r < length cs"
proof -
  obtain sg where sg: "sg = (case cs of [] \<Rightarrow> [] | s # _ \<Rightarrow> if s = CHR ''-'' then [s] else [])"
    by simp
  from assms obtain ip r1 fp r2 ep where
    i: "lex_int (drop (length sg) cs) = Inr (ip, r1)" and
    f: "lex_frac r1 = Inr (fp, r2)" and
    e: "lex_exp r2 = Inr (ep, r)"
    unfolding lex_number_def Let_def sg
    by (auto split: sum.splits)
  have "length r1 < length (drop (length sg) cs)" using i by (rule lex_int_length)
  moreover have "length r2 \<le> length r1" using f by (rule lex_frac_length)
  moreover have "length r \<le> length r2" using e by (rule lex_exp_length)
  ultimately show ?thesis by simp
qed

lemma lex_string_length: "lex_string cs = Inr (s, r) \<Longrightarrow> length r < length cs"
proof (induction cs arbitrary: s r rule: lex_string.induct)
  case 1
  then show ?case by simp
next
  case (2 c cs)
  show ?case
  proof (cases "c = dquote")
    case True
    then show ?thesis using "2.prems" by simp
  next
    case False
    then obtain out r1 s1 where
      st: "string_step c cs = Inr (out, r1)" and
      ls: "lex_string r1 = Inr (s1, r)"
      using "2.prems" by (auto split: sum.splits)
    have "length r < length r1" using "2.IH" False st ls by blast
    moreover have "length r1 \<le> length cs" using st by (rule string_step_length)
    ultimately show ?thesis by simp
  qed
qed

lemma lex_literal_length: "lex_literal name xs cs = Inr r \<Longrightarrow> length r \<le> length cs"
  by (induction name xs cs rule: lex_literal.induct) (auto split: if_splits)

function scan :: "scan_state \<Rightarrow> frame list \<Rightarrow> bytes \<Rightarrow> json_error + (json \<times> bytes)" where
  "scan BeginValue st cs =
     (case cs of
        [] \<Rightarrow> Inl (if st = [] then EOF else ErrUnexpectedEOF)
      | c # r \<Rightarrow>
          if isSpace c then scan BeginValue st r
          else if c = CHR ''{'' then
            (if maxNestingDepth \<le> length st then Inl (SyntaxError c ''exceeded max depth'')
             else scan BeginStringOrEmpty st r)
          else if c = CHR ''['' then
            (if maxNestingDepth \<le> length st then Inl (SyntaxError c ''exceeded max depth'')
             else scan BeginValueOrEmpty st r)
          else if c = dquote then
            (case lex_string r of
               Inl e \<Rightarrow> Inl e
             | Inr (s, r') \<Rightarrow> scan (EndValue (JString s)) st r')
          else if c = CHR ''-'' \<or> isDigit c then
            (case lex_number cs of
               Inl e \<Rightarrow> Inl e
             | Inr (n, r') \<Rightarrow> scan (EndValue (JNumber n)) st r')
          else if c = CHR ''t'' then
            (case lex_literal ''true'' ''rue'' r of
               Inl e \<Rightarrow> Inl e
             | Inr r' \<Rightarrow> scan (EndValue (JBool True)) st r')
          else if c = CHR ''f'' then
            (case lex_literal ''false'' ''alse'' r of
               Inl e \<Rightarrow> Inl e
             | Inr r' \<Rightarrow> scan (EndValue (JBool False)) st r')
          else if c = CHR ''n'' then
            (case lex_literal ''null'' ''ull'' r of
               Inl e \<Rightarrow> Inl e
             | Inr r' \<Rightarrow> scan (EndValue JNull) st r')
          else Inl (SyntaxError c ''looking for beginning of value''))"
| "scan BeginValueOrEmpty st cs =
     (case cs of
        [] \<Rightarrow> Inl ErrUnexpectedEOF
      | c # r \<Rightarrow>
          if isSpace c then scan BeginValueOrEmpty st r
          else if c = CHR '']'' then scan (EndValue (JArray [])) st r
          else scan BeginValue (InArray [] # st) cs)"
| "scan BeginStringOrEmpty st cs =
     (case cs of
        [] \<Rightarrow> Inl ErrUnexpectedEOF
      | c # r \<Rightarrow>
          if isSpace c then scan BeginStringOrEmpty st r
          else if c = CHR ''}'' then scan (EndValue (JObject [])) st r
          else scan (BeginString []) st cs)"
| "scan (BeginString ms) st cs =
     (case cs of
        [] \<Rightarrow> Inl ErrUnexpectedEOF
      | c # r \<Rightarrow>
          if isSpace c then scan (BeginString ms) st r
          else if c = dquote then
            (case lex_string r of
               Inl e \<Rightarrow> Inl e
             | Inr (k, r') \<Rightarrow> scan (EndKey ms k) st r')
          else Inl (SyntaxError c ''looking for beginning of object key string''))"
| "scan (EndKey ms k) st cs =
     (case cs of
        [] \<Rightarrow> Inl ErrUnexpectedEOF
      | c # r \<Rightarrow>
          if isSpace c then scan (EndKey ms k) st r
          else if c = CHR '':'' then scan BeginValue (InObjectValue ms k # st) r
          else Inl (SyntaxError c ''after object key''))"
| "scan (EndValue v) st cs =
     (case st of
        [] \<Rightarrow> Inr (v, cs)
      | f # st' \<Rightarrow>
          (case cs of
             [] \<Rightarrow> Inl ErrUnexpectedEOF
           | c # r \<Rightarrow>
               if isSpace c then scan (EndValue v) st r
               else
                 (case f of
                    InObjectValue ms k \<Rightarrow>
                      if c = CHR '','' then scan (BeginString (ms @ [(k, v)])) st' r
                      else if c = CHR ''}'' then scan (EndValue (JObject (ms @ [(k, v)]))) st' r
                      else Inl (SyntaxError c ''after object key:value pair'')
                  | InArray es \<Rightarrow>
                      if c = CHR '','' then scan BeginValue (InArray (es @ [v]) # st') r
                      else if c = CHR '']'' then scan (EndValue (JArray (es @ [v]))) st' r
                      else Inl (SyntaxError c ''after array element''))))"
  by pat_completeness auto
termination
  by (relation "measures [\<lambda>(s, st, cs). length cs,
                          \<lambda>(s, st, cs). (case s of BeginValueOrEmpty \<Rightarrow> 1 | BeginStringOrEmpty \<Rightarrow> 1 | _ \<Rightarrow> 0)]")
     (auto dest: lex_string_length lex_number_length lex_literal_length simp: less_Suc_eq_le)

definition readValue :: "bytes \<Rightarrow> json_error + (json \<times> bytes)" where
  "readValue body = scan BeginValue [] body"

subsection \<open>Storing the value into the \<open>GitHubUser\<close> struct\<close>

record GitHubUser =
  Login :: bytes
  Name :: bytes
  Followers :: int
  Following :: int

text \<open>\<open>var gitHubUser GitHubUser\<close>: every field has its zero value.\<close>

definition zero_GitHubUser :: GitHubUser where
  "zero_GitHubUser = \<lparr>Login = [], Name = [], Followers = 0, Following = 0\<rparr>"

datatype field = FLogin | FName | FFollowers | FFollowing

text \<open>The names given by the struct tags.\<close>

fun field_name :: "field \<Rightarrow> bytes" where
  "field_name FLogin = ''login''"
| "field_name FName = ''name''"
| "field_name FFollowers = ''followers''"
| "field_name FFollowing = ''following''"

definition struct_fields :: "field list" where
  "struct_fields = [FLogin, FName, FFollowers, FFollowing]"

text \<open>
  An object key is matched to a field by its exact name and otherwise by its folded name:
  the decoder accepts a case-insensitive match. Folding maps the ASCII letters to upper
  case; U+017F (long s) and U+212A (Kelvin sign) are the two code points outside ASCII
  that fold to ASCII letters. Every other code point folds to a code point outside ASCII
  and is kept as it is here, which makes no difference to a comparison with the folded
  field names.
\<close>

fun foldName :: "bytes \<Rightarrow> bytes" where
  "foldName [] = []"
| "foldName (c # cs) =
     (if in_range 97 122 c then char_of (byte c - 32) # foldName cs
      else if c = CHR 0xC5 \<and> take 1 cs = [CHR 0xBF] then CHR ''S'' # foldName (drop 1 cs)
      else if c = CHR 0xE2 \<and> take 2 cs = [CHR 0x84, CHR 0xAA] then CHR ''K'' # foldName (drop 2 cs)
      else c # foldName cs)"

declare foldName.simps [simp del]

definition find_field :: "bytes \<Rightarrow> field option" where
  "find_field key =
     (case List.find (\<lambda>f. field_name f = key) struct_fields of
        Some f \<Rightarrow> Some f
      | None \<Rightarrow> List.find (\<lambda>f. foldName (field_name f) = foldName key) struct_fields)"

text \<open>
  \<open>strconv.ParseInt(s, 10, 64)\<close> on a number literal: an optional minus sign and digits
  only, within the range of a 64-bit \<open>int\<close>.
\<close>

definition digits_value :: "bytes \<Rightarrow> int" where
  "digits_value ds = foldl (\<lambda>a c. 10 * a + int (byte c - 48)) 0 ds"

definition ParseInt :: "bytes \<Rightarrow> int option" where
  "ParseInt s =
     (let neg = (take 1 s = ''-'');
          ds = (if neg then drop 1 s else s)
      in if ds \<noteq> [] \<and> list_all isDigit ds then
           (let v = (if neg then - digits_value ds else digits_value ds)
            in if - (2 ^ 63) \<le> v \<and> v < 2 ^ 63 then Some v else None)
         else None)"

text \<open>
  A value is stored into a field when its kind fits. \<open>null\<close> leaves the field as it is.
  Any other value is an \<open>UnmarshalTypeError\<close>, which leaves the field as it is too.
\<close>

fun store_string :: "bytes \<Rightarrow> json \<Rightarrow> bytes \<times> json_error option" where
  "store_string cur (JString s) = (s, None)"
| "store_string cur JNull = (cur, None)"
| "store_string cur (JNumber n) = (cur, Some (UnmarshalTypeError ''number''))"
| "store_string cur (JBool b) = (cur, Some (UnmarshalTypeError ''bool''))"
| "store_string cur (JArray es) = (cur, Some (UnmarshalTypeError ''array''))"
| "store_string cur (JObject ms) = (cur, Some (UnmarshalTypeError ''object''))"

fun store_int :: "int \<Rightarrow> json \<Rightarrow> int \<times> json_error option" where
  "store_int cur (JNumber n) =
     (case ParseInt n of
        Some i \<Rightarrow> (i, None)
      | None \<Rightarrow> (cur, Some (UnmarshalTypeError (''number '' @ n))))"
| "store_int cur JNull = (cur, None)"
| "store_int cur (JString s) = (cur, Some (UnmarshalTypeError ''string''))"
| "store_int cur (JBool b) = (cur, Some (UnmarshalTypeError ''bool''))"
| "store_int cur (JArray es) = (cur, Some (UnmarshalTypeError ''array''))"
| "store_int cur (JObject ms) = (cur, Some (UnmarshalTypeError ''object''))"

text \<open>\<open>saveError\<close> keeps the first error; decoding goes on after it.\<close>

definition saveError :: "json_error option \<Rightarrow> json_error option \<Rightarrow> json_error option" where
  "saveError saved e = (case saved of None \<Rightarrow> e | Some x \<Rightarrow> Some x)"

fun store_field ::
  "field \<Rightarrow> json \<Rightarrow> GitHubUser \<times> json_error option \<Rightarrow> GitHubUser \<times> json_error option" where
  "store_field FLogin v (u, saved) =
     (case store_string (Login u) v of (x, e) \<Rightarrow> (u\<lparr>Login := x\<rparr>, saveError saved e))"
| "store_field FName v (u, saved) =
     (case store_string (Name u) v of (x, e) \<Rightarrow> (u\<lparr>Name := x\<rparr>, saveError saved e))"
| "store_field FFollowers v (u, saved) =
     (case store_int (Followers u) v of (x, e) \<Rightarrow> (u\<lparr>Followers := x\<rparr>, saveError saved e))"
| "store_field FFollowing v (u, saved) =
     (case store_int (Following u) v of (x, e) \<Rightarrow> (u\<lparr>Following := x\<rparr>, saveError saved e))"

text \<open>A member whose key matches no field is skipped.\<close>

definition store_member ::
  "bytes \<times> json \<Rightarrow> GitHubUser \<times> json_error option \<Rightarrow> GitHubUser \<times> json_error option" where
  "store_member m acc =
     (case find_field (fst m) of
        None \<Rightarrow> acc
      | Some f \<Rightarrow> store_field f (snd m) acc)"

text \<open>
  The members of an object are stored in their order. A top-level \<open>null\<close> changes
  nothing; any other top-level value cannot be stored into a struct.
\<close>

fun unmarshal :: "json \<Rightarrow> GitHubUser \<Rightarrow> GitHubUser \<times> json_error option" where
  "unmarshal (JObject ms) u = fold store_member ms (u, None)"
| "unmarshal JNull u = (u, None)"
| "unmarshal (JArray es) u = (u, Some (UnmarshalTypeError ''array''))"
| "unmarshal (JString s) u = (u, Some (UnmarshalTypeError ''string''))"
| "unmarshal (JNumber n) u = (u, Some (UnmarshalTypeError ''number''))"
| "unmarshal (JBool b) u = (u, Some (UnmarshalTypeError ''bool''))"

text \<open>
  \<open>Decode\<close>: read one value from the body, then store it. The struct as it is after the
  call and the error returned.
\<close>

definition Decode :: "bytes \<Rightarrow> GitHubUser \<Rightarrow> GitHubUser \<times> json_error option" where
  "Decode body u =
     (case readValue body of
        Inl e \<Rightarrow> (u, Some e)
      | Inr (v, rest) \<Rightarrow> unmarshal v u)"

section \<open>The process and its surroundings\<close>

text \<open>
  What the program does to the outside is kept in a record: the bytes written to standard
  output and to standard error, the URLs requested over the network in their order, how
  many response bodies were obtained and how many were closed, the environment variables
  of the process, and whether \<open>viper.AutomaticEnv\<close> was called.
\<close>

record process =
  stdout :: bytes
  stderr :: bytes
  requests :: "bytes list"
  bodies_opened :: nat
  bodies_closed :: nat
  environ :: "bytes \<Rightarrow> bytes option"
  viper_automatic_env :: bool

definition start :: "(bytes \<Rightarrow> bytes option) \<Rightarrow> process" where
  "start env =
     \<lparr>stdout = [], stderr = [], requests = [], bodies_opened = 0, bodies_closed = 0,
      environ = env, viper_automatic_env = False\<rparr>"

text \<open>
  The network is a stub: \<open>http_Get\<close> answers a URL with the text of a transport error or
  with a response. The text of a decoding error (\<open>err.Error()\<close>) is taken from
  \<open>error_text\<close>.
\<close>

record response =
  StatusCode :: nat
  Body :: bytes

record world =
  http_Get :: "bytes \<Rightarrow> bytes + response"
  error_text :: "json_error \<Rightarrow> bytes"

text \<open>\<open>fmt.Println\<close>: the operands separated by spaces, then a newline, to standard output.\<close>

fun spaced :: "bytes list \<Rightarrow> bytes" where
  "spaced [] = []"
| "spaced [a] = a"
| "spaced (a # b # bs) = a @ '' '' @ spaced (b # bs)"

definition Println :: "bytes list \<Rightarrow> process \<Rightarrow> process" where
  "Println operands p = p\<lparr>stdout := stdout p @ spaced operands @ newline\<rparr>"

section \<open>User lookup: \<open>github.GetUser\<close>\<close>

definition api_base :: bytes where
  "api_base = ''https://api.github.com/users/''"

text \<open>\<open>fmt.Sprintf("https://api.github.com/users/%s", user)\<close>\<close>

definition user_url :: "bytes \<Rightarrow> bytes" where
  "user_url user = api_base @ user"

text \<open>The format of the final \<open>fmt.Printf\<close>, applied to the four fields.\<close>

definition format_profile :: "GitHubUser \<Rightarrow> bytes" where
  "format_profile u =
     ''Usu'' @ a_acute @ ''rio: '' @ Login u @ newline @
     ''Nome: '' @ Name u @ newline @
     ''Seguidores: '' @ format_int (Followers u) @ newline @
     ''Seguindo: '' @ format_int (Following u) @ newline"

definition Printf_profile :: "GitHubUser \<Rightarrow> process \<Rightarrow> process" where
  "Printf_profile u p = p\<lparr>stdout := stdout p @ format_profile u\<rparr>"

definition msg_fetch :: bytes where
  "msg_fetch = ''Erro ao buscar o usu'' @ a_acute @ ''rio:''"

definition msg_decode :: bytes where
  "msg_decode = ''Erro ao decodificar resposta:''"

definition Body_Close :: "process \<Rightarrow> process" where
  "Body_Close p = p\<lparr>bodies_closed := Suc (bodies_closed p)\<rparr>"

text \<open>The part of \<open>GetUser\<close> after \<open>defer resp.Body.Close()\<close>, with both of its returns.\<close>

definition GetUser_decode :: "world \<Rightarrow> response \<Rightarrow> process \<Rightarrow> process" where
  "GetUser_decode w resp p =
     (case Decode (Body resp) zero_GitHubUser of
        (gitHubUser, Some err) \<Rightarrow> Println [msg_decode, error_text w err] p
      | (gitHubUser, None) \<Rightarrow> Printf_profile gitHubUser p)"

text \<open>
  \<open>GetUser\<close>: the request is recorded, a transport error is printed and ends the call; a
  response opens a body, and the deferred \<open>Close\<close> runs when the rest has returned.
\<close>

definition GetUser :: "world \<Rightarrow> bytes \<Rightarrow> process \<Rightarrow> process" where
  "GetUser w user p =
     (let url = user_url user;
          p1 = p\<lparr>requests := requests p @ [url]\<rparr>
      in case http_Get w url of
           Inl err \<Rightarrow> Println [msg_fetch, err] p1
         | Inr resp \<Rightarrow>
             Body_Close (GetUser_decode w resp (p1\<lparr>bodies_opened := Suc (bodies_opened p1)\<rparr>)))"

section \<open>CLI entry: package \<open>cmd\<close>\<close>

text \<open>
  The command framework parses the command line before the program's own code runs. The
  model starts from its result: a flag error, with what the framework itself wrote to
  standard error and the error's text, or the dispatch to the \<open>Run\<close> handler with the
  \<open>--user\<close>/\<open>-u\<close> flag as the command line gave it (\<open>None\<close> when it gave none). Help and
  completion requests, which the framework answers itself, are not modelled.
\<close>

datatype cobra_result =
    FlagError bytes bytes
  | Dispatch "bytes option"

datatype outcome =
    Return process
  | Exit nat process

text \<open>\<open>cmd.Flags().GetString("user")\<close>: the flag's value, or its default \<open>""\<close>.\<close>

definition GetString_user :: "bytes option \<Rightarrow> bytes" where
  "GetString_user flag = (case flag of None \<Rightarrow> [] | Some v \<Rightarrow> v)"

definition msg_missing :: bytes where
  "msg_missing =
     E_acute @ '' necess'' @ a_acute @ ''rio informar um usu'' @ a_acute @ ''rio com -u ou --user''"

definition Run :: "world \<Rightarrow> bytes option \<Rightarrow> process \<Rightarrow> outcome" where
  "Run w flag p =
     (let user = GetString_user flag
      in if user = [] then Exit 1 (Println [msg_missing] p)
         else Return (GetUser w user p))"

definition initConfig :: "process \<Rightarrow> process" where
  "initConfig p = p\<lparr>viper_automatic_env := True\<rparr>"

text \<open>
  \<open>Execute\<close>: a flag error comes back from \<open>rootCmd.Execute()\<close> before the initializers
  have run; it is printed and the process exits with 1. Otherwise \<open>initConfig\<close> runs and
  then the handler.
\<close>

definition Execute :: "world \<Rightarrow> cobra_result \<Rightarrow> process \<Rightarrow> outcome" where
  "Execute w parsed p =
     (case parsed of
        FlagError diagnostics err \<Rightarrow> Exit 1 (Println [err] (p\<lparr>stderr := stderr p @ diagnostics\<rparr>))
      | Dispatch flag \<Rightarrow> Run w flag (initConfig p))"

text \<open>\<open>main\<close>: the exit code of the process and its final state.\<close>

definition main :: "world \<Rightarrow> (bytes \<Rightarrow> bytes option) \<Rightarrow> cobra_result \<Rightarrow> nat \<times> process" where
  "main w env parsed =
     (case Execute w parsed (start env) of
        Return p \<Rightarrow> (0, p)
      | Exit code p \<Rightarrow> (code, p))"

section \<open>The path encoding the specification refers to\<close>




section \<open>Stubs for concrete runs\<close>

definition no_environ :: "bytes \<Rightarrow> bytes option" where
  "no_environ = (\<lambda>k. None)"

definition octocat_environ :: "bytes \<Rightarrow> bytes option" where
  "octocat_environ = (\<lambda>k. if k = ''USER'' then Some ''octocat'' else None)"

definition stub_error_text :: "json_error \<Rightarrow> bytes" where
  "stub_error_text = (\<lambda>e. ''decoding failed'')"

text \<open>A network that answers every request with the given body.\<close>

definition stub_world :: "bytes \<Rightarrow> world" where
  "stub_world b =
     \<lparr>http_Get = (\<lambda>url. Inr \<lparr>StatusCode = 200, Body = b\<rparr>), error_text = stub_error_text\<rparr>"

text \<open>A network on which every request fails.\<close>

definition refusing_world :: world where
  "refusing_world =
     \<lparr>http_Get = (\<lambda>url. Inl ''connection refused''), error_text = stub_error_text\<rparr>"

definition facebook_body :: bytes where
  \<open>facebook_body = ''{"login":"facebook","name":"Facebook","followers":0,"following":0}''\<close>

section \<open>Measures used in the statements\<close>

text \<open>What a call of the lookup adds to standard output.\<close>

definition emitted :: "world \<Rightarrow> bytes \<Rightarrow> process \<Rightarrow> bytes" where
  "emitted w user p = drop (length (stdout p)) (stdout (GetUser w user p))"


text \<open>
  The members of a decoded object; whether a key names a field the way the decoder
  compares names (case-insensitively); whether no member of an object names a field; the
  members that name some field; and whether a field has its zero value.
\<close>

definition members_of :: "json \<Rightarrow> (bytes \<times> json) list" where
  "members_of v = (case v of JObject ms \<Rightarrow> ms | _ \<Rightarrow> [])"

definition names_field :: "bytes \<Rightarrow> field \<Rightarrow> bool" where
  "names_field key f = (foldName key = foldName (field_name f))"

definition absent :: "field \<Rightarrow> (bytes \<times> json) list \<Rightarrow> bool" where
  "absent f ms = list_all (\<lambda>m. \<not> names_field (fst m) f) ms"

definition known_members :: "(bytes \<times> json) list \<Rightarrow> (bytes \<times> json) list" where
  "known_members ms = filter (\<lambda>m. list_ex (names_field (fst m)) struct_fields) ms"

fun field_zero :: "field \<Rightarrow> GitHubUser \<Rightarrow> bool" where
  "field_zero FLogin u = (Login u = [])"
| "field_zero FName u = (Name u = [])"
| "field_zero FFollowers u = (Followers u = 0)"
| "field_zero FFollowing u = (Following u = 0)"

text \<open>
  A value read from a body is settled when more input could not have changed it: a
  top-level number that ends with the body is not, since appended digits would extend
  it. A scanner run is stable under appended bytes \<open>t\<close> when every settled result
  stays the same with \<open>t\<close> appended, \<open>t\<close> being left unread.
\<close>

definition settled :: "json \<Rightarrow> bytes \<Rightarrow> bool" where
  "settled v r = (case v of JNumber n \<Rightarrow> r \<noteq> [] | _ \<Rightarrow> True)"

definition stable :: "bytes \<Rightarrow> scan_state \<Rightarrow> frame list \<Rightarrow> bytes \<Rightarrow> bool" where
  "stable t s st cs \<longleftrightarrow>
     (\<forall>v r. scan s st cs = Inr (v, r) \<longrightarrow> settled v r \<longrightarrow> scan s st (cs @ t) = Inr (v, r @ t))"

section \<open>Properties of the CLI entry\<close>

lemma Println_fields [simp]:
  "stdout (Println xs p) = stdout p @ spaced xs @ newline"
  "stderr (Println xs p) = stderr p"
  "requests (Println xs p) = requests p"
  "bodies_opened (Println xs p) = bodies_opened p"
  "bodies_closed (Println xs p) = bodies_closed p"
  "viper_automatic_env (Println xs p) = viper_automatic_env p"
  by (simp_all add: Println_def)

lemma start_fields [simp]:
  "stdout (start env) = []"
  "stderr (start env) = []"
  "requests (start env) = []"
  "bodies_opened (start env) = 0"
  "bodies_closed (start env) = 0"
  by (simp_all add: start_def)

lemma initConfig_fields [simp]:
  "stdout (initConfig p) = stdout p"
  "stderr (initConfig p) = stderr p"
  "requests (initConfig p) = requests p"
  "bodies_opened (initConfig p) = bodies_opened p"
  "bodies_closed (initConfig p) = bodies_closed p"
  "viper_automatic_env (initConfig p) = True"
  by (simp_all add: initConfig_def)

lemma main_missing_user:
  "GetString_user flag = [] \<Longrightarrow>
   main w env (Dispatch flag) = (1, Println [msg_missing] (initConfig (start env)))"
  by (simp add: main_def Execute_def Run_def)




text \<open>
  C2 at the failing input: the flag is not supplied and the environment holds
  \<open>USER=octocat\<close>. \<open>viper.AutomaticEnv\<close> has been called, but the handler reads the flag
  only: the process prints the message, exits with 1 and requests nothing.
\<close>

theorem environment_not_consulted:
  "fst (main w octocat_environ (Dispatch None)) = 1
   \<and> octocat_environ ''USER'' = Some ''octocat''
   \<and> viper_automatic_env (snd (main w octocat_environ (Dispatch None)))
   \<and> stdout (snd (main w octocat_environ (Dispatch None))) = msg_missing @ newline
   \<and> requests (snd (main w octocat_environ (Dispatch None))) = []"
  by (simp add: main_missing_user GetString_user_def octocat_environ_def)

section \<open>Properties of the lookup\<close>


lemma Decode_html:
  "Decode ''<html>'' zero_GitHubUser =
     (zero_GitHubUser, Some (SyntaxError (CHR ''<'') ''looking for beginning of value''))"
  by code_simp

lemma GetUser_decode_fields [simp]:
  "requests (GetUser_decode w resp p) = requests p"
  "stderr (GetUser_decode w resp p) = stderr p"
  "bodies_opened (GetUser_decode w resp p) = bodies_opened p"
  "bodies_closed (GetUser_decode w resp p) = bodies_closed p"
  by (simp_all add: GetUser_decode_def Printf_profile_def split: prod.splits option.splits)

lemma GetUser_requests: "requests (GetUser w user p) = requests p @ [api_base @ user]"
  by (simp add: GetUser_def Let_def user_url_def Body_Close_def split: sum.splits)

lemma GetUser_stderr: "stderr (GetUser w user p) = stderr p"
  by (simp add: GetUser_def Let_def Body_Close_def split: sum.splits)

lemma GetUser_transport_error:
  "http_Get w (user_url user) = Inl err \<Longrightarrow>
   stdout (GetUser w user p) = stdout p @ msg_fetch @ '' '' @ err @ newline"
  by (simp add: GetUser_def Let_def)

lemma GetUser_decode_error:
  "http_Get w (user_url user) = Inr resp \<Longrightarrow>
   snd (Decode (Body resp) zero_GitHubUser) = Some e \<Longrightarrow>
   stdout (GetUser w user p) = stdout p @ msg_decode @ '' '' @ error_text w e @ newline"
  by (auto simp: GetUser_def Let_def Body_Close_def GetUser_decode_def split: prod.splits)

lemma GetUser_decoded:
  "http_Get w (user_url user) = Inr resp \<Longrightarrow>
   Decode (Body resp) zero_GitHubUser = (u, None) \<Longrightarrow>
   stdout (GetUser w user p) = stdout p @ format_profile u"
  by (simp add: GetUser_def Let_def Body_Close_def GetUser_decode_def Printf_profile_def)

lemma GetUser_bodies:
  "http_Get w (user_url user) = Inr resp \<Longrightarrow>
   bodies_opened (GetUser w user p) = Suc (bodies_opened p)
   \<and> bodies_closed (GetUser w user p) = Suc (bodies_closed p)"
  by (simp add: GetUser_def Let_def Body_Close_def)

lemma main_lookup:
  "user \<noteq> [] \<Longrightarrow>
   main w env (Dispatch (Some user)) = (0, GetUser w user (initConfig (start env)))"
  by (simp add: main_def Execute_def Run_def GetString_user_def)

lemma stdout_GetUser_append:
  "\<exists>out. \<forall>p. stdout (GetUser w user p) = stdout p @ out"
proof (cases "http_Get w (user_url user)")
  case (Inl err)
  then show ?thesis using GetUser_transport_error by blast
next
  case (Inr resp)
  obtain u e where d: "Decode (Body resp) zero_GitHubUser = (u, e)" by (cases "Decode (Body resp) zero_GitHubUser")
  show ?thesis
  proof (cases e)
    case None
    then show ?thesis using Inr d GetUser_decoded by blast
  next
    case (Some a)
    then have "snd (Decode (Body resp) zero_GitHubUser) = Some a" using d by simp
    then show ?thesis using Inr GetUser_decode_error by blast
  qed
qed

lemma emitted_independent: "emitted w user p = emitted w user q"
proof -
  obtain out where o: "\<And>p. stdout (GetUser w user p) = stdout p @ out"
    using stdout_GetUser_append by blast
  show ?thesis by (simp add: emitted_def o)
qed

lemma stdout_emitted: "stdout (GetUser w user p) = stdout p @ emitted w user p"
proof -
  obtain out where o: "\<And>p. stdout (GetUser w user p) = stdout p @ out"
    using stdout_GetUser_append by blast
  show ?thesis by (simp add: emitted_def o)
qed








text \<open>
  C9. A flag value that is not the empty string, whitespace included, passes the check and
  reaches the lookup unchanged: the handler returns what \<open>GetUser\<close> of that very value
  does, and the URL requested ends with the value's bytes.
\<close>

theorem nonempty_user_forwarded:
  assumes "user \<noteq> []"
  shows "Run w (Some user) p = Return (GetUser w user p)
       \<and> requests (GetUser w user p) = requests p @ [api_base @ user]"
  using assms by (simp add: Run_def GetString_user_def GetUser_requests)

theorem nonempty_user_forwarded_witness:
  "''  '' \<noteq> []
   \<and> Run refusing_world (Some ''  '') (start no_environ) =
       Return (GetUser refusing_world ''  '' (start no_environ))
   \<and> requests (GetUser refusing_world ''  '' (start no_environ)) = [api_base @ ''  '']"
proof -
  have h: "''  '' \<noteq> []" by simp
  show ?thesis
    using nonempty_user_forwarded [OF h, of refusing_world "start no_environ"] by simp
qed

text \<open>
  C5. When the request fails in transport, and when a response arrives whose body does
  not decode, the lookup prints one line (the message, a space, the error's text) to
  standard output and returns; the process then ends with exit code 0.
\<close>

theorem failures_print_and_return:
  assumes "user \<noteq> []"
  shows "(http_Get w (user_url user) = Inl err \<longrightarrow>
            fst (main w env (Dispatch (Some user))) = 0
          \<and> stdout (snd (main w env (Dispatch (Some user)))) =
              msg_fetch @ '' '' @ err @ newline)
       \<and> (http_Get w (user_url user) = Inr resp
            \<and> snd (Decode (Body resp) zero_GitHubUser) = Some e \<longrightarrow>
            fst (main w env (Dispatch (Some user))) = 0
          \<and> stdout (snd (main w env (Dispatch (Some user)))) =
              msg_decode @ '' '' @ error_text w e @ newline)"
  using assms
  by (simp add: main_lookup GetUser_transport_error GetUser_decode_error)

theorem failures_print_and_return_witness:
  "fst (main refusing_world no_environ (Dispatch (Some ''facebook''))) = 0
   \<and> stdout (snd (main refusing_world no_environ (Dispatch (Some ''facebook'')))) =
       msg_fetch @ '' connection refused'' @ newline
   \<and> snd (Decode ''<html>'' zero_GitHubUser) =
       Some (SyntaxError (CHR ''<'') ''looking for beginning of value'')
   \<and> fst (main (stub_world ''<html>'') no_environ (Dispatch (Some ''facebook''))) = 0
   \<and> stdout (snd (main (stub_world ''<html>'') no_environ (Dispatch (Some ''facebook'')))) =
       msg_decode @ '' decoding failed'' @ newline"
proof -
  have h: "''facebook'' \<noteq> []" by simp
  have t: "http_Get refusing_world (user_url ''facebook'') = Inl ''connection refused''"
    by (simp add: refusing_world_def)
  have r: "http_Get (stub_world ''<html>'') (user_url ''facebook'') =
             Inr \<lparr>StatusCode = 200, Body = ''<html>''\<rparr>"
    by (simp add: stub_world_def)
  have d: "snd (Decode (Body \<lparr>StatusCode = 200, Body = ''<html>''\<rparr>) zero_GitHubUser) =
             Some (SyntaxError (CHR ''<'') ''looking for beginning of value'')"
    by (simp add: Decode_html)
  show ?thesis
    using t r d
      failures_print_and_return [OF h, of refusing_world "''connection refused''" no_environ]
      failures_print_and_return [OF h, of "stub_world ''<html>''" _ no_environ
        "\<lparr>StatusCode = 200, Body = ''<html>''\<rparr>"
        "SyntaxError (CHR ''<'') ''looking for beginning of value''"]
    by (simp add: stub_world_def stub_error_text_def)
qed

text \<open>
  C7. Whenever the request yields a response, one body is opened and one body is closed
  by the time the lookup returns, whatever the body holds: on the path that prints the
  profile and on the path of a decoding error alike. If every body was closed before the
  call, every body is closed after it.
\<close>

theorem body_closed_on_every_path:
  assumes "http_Get w (user_url user) = Inr resp"
  shows "bodies_opened (GetUser w user p) = Suc (bodies_opened p)
       \<and> bodies_closed (GetUser w user p) = Suc (bodies_closed p)
       \<and> (bodies_closed p = bodies_opened p \<longrightarrow>
            bodies_closed (GetUser w user p) = bodies_opened (GetUser w user p))"
  using GetUser_bodies [OF assms] by simp

theorem body_closed_on_every_path_witness:
  "bodies_opened (GetUser (stub_world ''<html>'') ''facebook'' (start no_environ)) = 1
   \<and> bodies_closed (GetUser (stub_world ''<html>'') ''facebook'' (start no_environ)) = 1
   \<and> bodies_opened (GetUser (stub_world facebook_body) ''facebook'' (start no_environ)) = 1
   \<and> bodies_closed (GetUser (stub_world facebook_body) ''facebook'' (start no_environ)) = 1"
proof -
  have a: "http_Get (stub_world ''<html>'') (user_url ''facebook'') =
             Inr \<lparr>StatusCode = 200, Body = ''<html>''\<rparr>"
    by (simp add: stub_world_def)
  have b: "http_Get (stub_world facebook_body) (user_url ''facebook'') =
             Inr \<lparr>StatusCode = 200, Body = facebook_body\<rparr>"
    by (simp add: stub_world_def)
  show ?thesis
    using body_closed_on_every_path [OF a, of "start no_environ"]
      body_closed_on_every_path [OF b, of "start no_environ"]
    by simp
qed

text \<open>
  C8. What a call of the lookup adds to standard output depends on the identifier and on
  the stubbed network only, not on the state of the process: a second call right after
  the first adds the same bytes as the first, and so does a call from any other state.
\<close>

theorem lookup_stateless:
  "stdout (GetUser w user p) = stdout p @ emitted w user p
   \<and> emitted w user (GetUser w user p) = emitted w user p
   \<and> emitted w user q = emitted w user p
   \<and> stdout (GetUser w user (GetUser w user p)) =
       stdout p @ emitted w user p @ emitted w user p"
proof -
  have "stdout (GetUser w user (GetUser w user p)) =
          stdout (GetUser w user p) @ emitted w user (GetUser w user p)"
    by (rule stdout_emitted)
  also have "\<dots> = (stdout p @ emitted w user p) @ emitted w user p"
    by (simp add: stdout_emitted [of w user p] emitted_independent [of w user "GetUser w user p" p])
  finally show ?thesis
    using stdout_emitted [of w user p] emitted_independent [of w user "GetUser w user p" p]
      emitted_independent [of w user q p]
    by simp
qed



section \<open>Properties of the decoder\<close>

lemma folded_names:
  "foldName ''login'' = ''LOGIN''"
  "foldName ''name'' = ''NAME''"
  "foldName ''followers'' = ''FOLLOWERS''"
  "foldName ''following'' = ''FOLLOWING''"
  by code_simp+

lemma find_folded_iff:
  "List.find (\<lambda>f. foldName (field_name f) = X) struct_fields = Some f
     \<longleftrightarrow> X = foldName (field_name f)"
  by (cases f) (auto simp: struct_fields_def folded_names)

lemma find_exact_Some:
  "List.find (\<lambda>f. field_name f = k) struct_fields = Some g \<Longrightarrow> k = field_name g"
  by (auto simp: find_Some_iff)

lemma folded_names_inj: "foldName (field_name g) = foldName (field_name f) \<longleftrightarrow> g = f"
  by (cases g; cases f) (simp_all add: folded_names)

lemma find_field_iff: "find_field k = Some f \<longleftrightarrow> names_field k f"
proof (cases "List.find (\<lambda>f. field_name f = k) struct_fields")
  case None
  then show ?thesis
    by (simp add: find_field_def names_field_def find_folded_iff)
next
  case (Some g)
  then have "k = field_name g" by (rule find_exact_Some)
  then show ?thesis using Some
    by (auto simp: find_field_def names_field_def folded_names_inj)
qed

lemma find_field_None_iff: "find_field k = None \<longleftrightarrow> \<not> list_ex (names_field k) struct_fields"
proof -
  have "find_field k = None \<longleftrightarrow> (\<forall>f. find_field k \<noteq> Some f)" by auto
  also have "\<dots> \<longleftrightarrow> (\<forall>f. \<not> names_field k f)" by (simp add: find_field_iff)
  also have "\<dots> \<longleftrightarrow> \<not> list_ex (names_field k) struct_fields"
  proof -
    have "set struct_fields = UNIV"
    proof -
      have "f \<in> set struct_fields" for f by (cases f) (simp_all add: struct_fields_def)
      then show ?thesis by auto
    qed
    then show ?thesis by (simp add: list_ex_iff)
  qed
  finally show ?thesis .
qed

lemma store_field_other:
  "g \<noteq> f \<Longrightarrow> field_zero f (fst acc) \<Longrightarrow> field_zero f (fst (store_field g v acc))"
  by (cases acc; cases g; cases f) (auto split: prod.splits)

lemma store_member_keeps_zero:
  assumes "\<not> names_field (fst m) f" and "field_zero f (fst acc)"
  shows "field_zero f (fst (store_member m acc))"
proof (cases "find_field (fst m)")
  case None
  then show ?thesis using assms by (simp add: store_member_def)
next
  case (Some g)
  then have "g \<noteq> f" using assms(1) find_field_iff by blast
  then show ?thesis using Some assms(2) by (simp add: store_member_def store_field_other)
qed

lemma fold_store_keeps_zero:
  "absent f ms \<Longrightarrow> field_zero f (fst acc) \<Longrightarrow> field_zero f (fst (fold store_member ms acc))"
proof (induction ms arbitrary: acc)
  case Nil
  then show ?case by simp
next
  case (Cons m ms)
  then show ?case by (simp add: absent_def store_member_keeps_zero)
qed

lemma fold_store_known:
  "fold store_member (known_members ms) acc = fold store_member ms acc"
proof (induction ms arbitrary: acc)
  case Nil
  then show ?case by (simp add: known_members_def)
next
  case (Cons m ms)
  show ?case
  proof (cases "find_field (fst m)")
    case None
    then have "\<not> list_ex (names_field (fst m)) struct_fields"
      by (simp add: find_field_None_iff)
    then show ?thesis using None Cons.IH [of acc]
      by (simp add: known_members_def store_member_def)
  next
    case (Some g)
    then have "list_ex (names_field (fst m)) struct_fields"
      using find_field_None_iff [of "fst m"] by auto
    then show ?thesis using Cons.IH [of "store_member m acc"]
      by (simp add: known_members_def)
  qed
qed

lemma zero_fields: "field_zero f zero_GitHubUser"
  by (cases f) (simp_all add: zero_GitHubUser_def)

lemma Decode_success:
  assumes "Decode body u0 = (u, None)"
  shows "\<exists>v rest. readValue body = Inr (v, rest) \<and> unmarshal v u0 = (u, None)
                 \<and> (v = JNull \<or> v = JObject (members_of v))"
proof (cases "readValue body")
  case (Inl e)
  then show ?thesis using assms by (simp add: Decode_def)
next
  case (Inr p)
  obtain v rest where p: "p = (v, rest)" by (cases p)
  have u: "unmarshal v u0 = (u, None)" using assms Inr p by (simp add: Decode_def)
  then have "v = JNull \<or> v = JObject (members_of v)"
    by (cases v) (simp_all add: members_of_def)
  then show ?thesis using Inr p u by blast
qed

text \<open>
  C6, as the code has it. Let a body decode without error. Every field that no member of
  the decoded object names, comparing names case-insensitively as the decoder does, has its
  zero value; and the members that name none of the four fields do not matter: the object
  without them decodes to the same Profile. (A top-level \<open>null\<close> has no members.)
\<close>

theorem absent_fields_zero:
  assumes "Decode body zero_GitHubUser = (u, None)"
  shows "\<exists>v rest. readValue body = Inr (v, rest)
           \<and> (\<forall>f. absent f (members_of v) \<longrightarrow> field_zero f u)
           \<and> unmarshal (JObject (known_members (members_of v))) zero_GitHubUser = (u, None)"
proof -
  obtain v rest where r: "readValue body = Inr (v, rest)"
    and un: "unmarshal v zero_GitHubUser = (u, None)"
    and k: "v = JNull \<or> v = JObject (members_of v)"
    using Decode_success [OF assms] by blast
  have f: "fold store_member (members_of v) (zero_GitHubUser, None) = (u, None)"
    using k un by (cases v) (auto simp: members_of_def)
  have a: "field_zero f u" if "absent f (members_of v)" for f
    using fold_store_keeps_zero [OF that, of "(zero_GitHubUser, None)"] f zero_fields by simp
  have b: "unmarshal (JObject (known_members (members_of v))) zero_GitHubUser = (u, None)"
    using f by (simp add: fold_store_known)
  show ?thesis using r a b by blast
qed

theorem absent_fields_zero_witness:
  \<open>Decode ''{"login":"x","id":7}'' zero_GitHubUser =
     (\<lparr>Login = ''x'', Name = [], Followers = 0, Following = 0\<rparr>, None)
   \<and> readValue ''{"login":"x","id":7}'' =
       Inr (JObject [(''login'', JString ''x''), (''id'', JNumber ''7'')], [])
   \<and> absent FName [(''login'', JString ''x''), (''id'', JNumber ''7'')]
   \<and> field_zero FName \<lparr>Login = ''x'', Name = [], Followers = 0, Following = 0\<rparr>
   \<and> known_members [(''login'', JString ''x''), (''id'', JNumber ''7'')] = [(''login'', JString ''x'')]
   \<and> unmarshal (JObject [(''login'', JString ''x'')]) zero_GitHubUser =
       (\<lparr>Login = ''x'', Name = [], Followers = 0, Following = 0\<rparr>, None)\<close>
proof -
  have d: \<open>Decode ''{"login":"x","id":7}'' zero_GitHubUser =
     (\<lparr>Login = ''x'', Name = [], Followers = 0, Following = 0\<rparr>, None)\<close>
    by code_simp
  have r: \<open>readValue ''{"login":"x","id":7}'' =
       Inr (JObject [(''login'', JString ''x''), (''id'', JNumber ''7'')], [])\<close>
    by code_simp
  have a: "absent FName [(''login'', JString ''x''), (''id'', JNumber ''7'')]"
    by code_simp
  have k: "known_members [(''login'', JString ''x''), (''id'', JNumber ''7'')] = [(''login'', JString ''x'')]"
    by code_simp
  obtain v rest where
    r': \<open>readValue ''{"login":"x","id":7}'' = Inr (v, rest)\<close> and
    z: "\<forall>f. absent f (members_of v) \<longrightarrow>
          field_zero f \<lparr>Login = ''x'', Name = [], Followers = 0, Following = 0\<rparr>" and
    u: "unmarshal (JObject (known_members (members_of v))) zero_GitHubUser =
          (\<lparr>Login = ''x'', Name = [], Followers = 0, Following = 0\<rparr>, None)"
    using absent_fields_zero [OF d] by blast
  have v: "v = JObject [(''login'', JString ''x''), (''id'', JNumber ''7'')]"
    using r r' by simp
  have m: "members_of v = [(''login'', JString ''x''), (''id'', JNumber ''7'')]"
    by (simp add: v members_of_def)
  have fz: "field_zero FName \<lparr>Login = ''x'', Name = [], Followers = 0, Following = 0\<rparr>"
    using z a m by metis
  have un: "unmarshal (JObject [(''login'', JString ''x'')]) zero_GitHubUser =
       (\<lparr>Login = ''x'', Name = [], Followers = 0, Following = 0\<rparr>, None)"
    using u m k by metis
  show ?thesis
    using d r a fz k un by blast
qed

text \<open>
  C6 as the specification states it fails: the body \<open>{"LOGIN":"x"}\<close> decodes without
  error, its object has no member \<open>login\<close>, and yet the identifier field is \<open>x\<close>, not
  empty.
\<close>

theorem absent_key_counterexample:
  \<open>readValue ''{"LOGIN":"x"}'' = Inr (JObject [(''LOGIN'', JString ''x'')], [])
   \<and> ''login'' \<notin> set (map fst [(''LOGIN'', JString ''x'')])
   \<and> snd (Decode ''{"LOGIN":"x"}'' zero_GitHubUser) = None
   \<and> Login (fst (Decode ''{"LOGIN":"x"}'' zero_GitHubUser)) = ''x''
   \<and> Login (fst (Decode ''{"LOGIN":"x"}'' zero_GitHubUser)) \<noteq> []\<close>
proof -
  have d: \<open>Decode ''{"LOGIN":"x"}'' zero_GitHubUser =
     (\<lparr>Login = ''x'', Name = [], Followers = 0, Following = 0\<rparr>, None)\<close>
    by code_simp
  have r: \<open>readValue ''{"LOGIN":"x"}'' = Inr (JObject [(''LOGIN'', JString ''x'')], [])\<close>
    by code_simp
  show ?thesis
    using r by (simp add: d)
qed

section \<open>Reading one value leaves the rest of the body alone\<close>

subsection \<open>String literals\<close>

lemma hex_digits_drop:
  "hex_digits n acc cs = Inr (v, r) \<Longrightarrow> r = drop n cs \<and> n \<le> length cs"
proof (induction n acc cs rule: hex_digits.induct)
  case (3 n acc c cs)
  then show ?case by (auto split: option.splits)
qed auto

lemma hex_digits_append:
  "hex_digits n acc cs = Inr (v, r) \<Longrightarrow> hex_digits n acc (cs @ t) = Inr (v, r @ t)"
proof (induction n acc cs rule: hex_digits.induct)
  case (3 n acc c cs)
  then show ?case by (auto split: option.splits)
qed auto

lemma lex_string_Nil: "lex_string [] \<noteq> Inr x"
  by simp

lemma getu4_Some_append: "getu4 r = Some v \<Longrightarrow> getu4 (r @ t) = Some v \<and> 6 \<le> length r"
proof -
  assume a: "getu4 r = Some v"
  then obtain b u hs where r: "r = b # u # hs" and bu: "b = backslash" "u = CHR ''u''"
    by (auto simp: getu4_def split: list.splits if_splits)
  from a r bu obtain r'' where h: "hex_digits 4 0 hs = Inr (v, r'')"
    by (auto simp: getu4_def split: sum.splits)
  have "hex_digits 4 0 (hs @ t) = Inr (v, r'' @ t)"
    using h by (rule hex_digits_append)
  moreover have "4 \<le> length hs" using hex_digits_drop [OF h] by simp
  ultimately show ?thesis using r bu by (simp add: getu4_def)
qed

lemma getu4_append_closed:
  assumes "lex_string r = Inr x"
  shows "getu4 (r @ t) = getu4 r"
proof (cases "getu4 r")
  case (Some v)
  then show ?thesis using getu4_Some_append by simp
next
  case None
  show ?thesis
  proof (cases "getu4 (r @ t)")
    case None
    then show ?thesis using \<open>getu4 r = None\<close> by simp
  next
    case (Some v)
    obtain b rest where r: "r = b # rest"
      using assms by (cases r) auto
    have b: "b = backslash"
      using Some r by (auto simp: getu4_def split: list.splits if_splits)
    have nq: "b \<noteq> dquote" using b by (simp add: backslash_def dquote_def)
    obtain out r1 where e: "lex_escape rest = Inr (out, r1)"
      using assms r nq b by (auto simp: string_step_def split: sum.splits)
    then obtain e' hs where rest: "rest = e' # hs"
      by (cases rest) (auto simp: lex_escape_def)
    have u: "e' = CHR ''u''"
      using Some r rest by (auto simp: getu4_def split: list.splits if_splits)
    obtain rr r'' where h: "hex_digits 4 0 hs = Inr (rr, r'')"
      using e rest u by (auto simp: lex_escape_def dquote_def backslash_def split: sum.splits)
    then have "getu4 r = Some rr"
      using r rest b u by (simp add: getu4_def)
    then show ?thesis using None by simp
  qed
qed


lemma lex_string_Cons:
  assumes "c \<noteq> dquote" and "lex_string (c # cs) = Inr x"
  shows "\<exists>out r1 s r. string_step c cs = Inr (out, r1) \<and> lex_string r1 = Inr (s, r)
           \<and> x = (out @ s, r)"
  using assms by (auto split: sum.splits)

lemma lex_string_single:
  assumes "lex_string [a] = Inr x"
  shows "a = dquote"
proof (rule ccontr)
  assume n: "a \<noteq> dquote"
  obtain out r1 y where st: "string_step a [] = Inr (out, r1)" and l: "lex_string r1 = Inr y"
    using lex_string_Cons [OF n assms] by blast
  have "length r1 \<le> 0" using string_step_length [OF st] by simp
  then have "r1 = []" by simp
  then show False using l lex_string_Nil by blast
qed

lemma lex_escape_suffix:
  assumes "lex_escape cs = Inr (out, r)"
  shows "\<exists>k. r = drop k cs"
proof (cases cs)
  case Nil
  then show ?thesis using assms by (simp add: lex_escape_def)
next
  case (Cons e t)
  show ?thesis
  proof (cases "hex_digits 4 0 t")
    case (Inl err)
    then have "r = t" using assms Cons
      by (auto simp: lex_escape_def split: if_splits)
    then have "r = drop 1 cs" using Cons by simp
    then show ?thesis by blast
  next
    case (Inr p)
    obtain rr r' where p: "p = (rr, r')" by (cases p)
    have d: "r' = drop 4 t" using Inr p hex_digits_drop by blast
    have "r = t \<or> r = r' \<or> r = drop 6 r'"
      using assms Cons Inr p
      by (auto simp: lex_escape_def split: if_splits option.splits)
    then have "r = drop 1 cs \<or> r = drop 5 cs \<or> r = drop 11 cs"
      using d Cons by auto
    then show ?thesis by blast
  qed
qed

lemma string_step_suffix:
  assumes "string_step c cs = Inr (out, r)"
  shows "\<exists>k. r = drop k cs"
proof (cases "c = backslash")
  case True
  then show ?thesis using assms lex_escape_suffix by (simp add: string_step_def)
next
  case False
  then have "r = cs \<or> r = drop (utf8_len (c # cs)) (c # cs) \<and> utf8_len (c # cs) \<noteq> 0"
    using assms by (auto simp: string_step_def Let_def split: if_splits)
  then have "r = drop 0 cs \<or> r = drop (utf8_len (c # cs) - 1) cs"
    by (auto simp: drop_Cons')
  then show ?thesis by blast
qed

lemma lex_string_pair:
  assumes "lex_string [a, b] = Inr x"
  shows "a = dquote \<or> b = dquote"
proof (rule ccontr)
  assume n: "\<not> (a = dquote \<or> b = dquote)"
  then have na: "a \<noteq> dquote" by simp
  obtain out r1 y where st: "string_step a [b] = Inr (out, r1)" and l: "lex_string r1 = Inr y"
    using lex_string_Cons [OF na assms] by blast
  obtain k where "r1 = drop k [b]" using string_step_suffix [OF st] by blast
  then have "r1 = [] \<or> r1 = [b]" by (cases k) simp_all
  then show False
  proof
    assume "r1 = []"
    then show False using l lex_string_Nil by blast
  next
    assume "r1 = [b]"
    then have "b = dquote" using l lex_string_single by blast
    then show False using n by simp
  qed
qed

lemma lead_size_cases: "lead_size c = 0 \<or> lead_size c = 2 \<or> lead_size c = 3 \<or> lead_size c = 4"
  by (simp add: lead_size_def)

lemma accept_lo_ge: "0x80 \<le> accept_lo c"
  by (simp add: accept_lo_def)

lemma dquote_not_accepted: "\<not> in_range (accept_lo c) hi dquote"
  using accept_lo_ge [of c] by (simp add: in_range_def dquote_def byte_def)

lemma dquote_not_cont: "\<not> is_cont dquote"
  by (simp add: is_cont_def in_range_def dquote_def byte_def)

lemma utf8_len_le: "utf8_len s \<le> length s"
proof (cases s)
  case Nil
  then show ?thesis by (simp add: utf8_len_def)
next
  case (Cons c0 r)
  then show ?thesis
    using lead_size_cases [of c0] by (auto simp: utf8_len_def Let_def not_less)
qed

lemma utf8_len_append: 
  assumes "utf8_len s \<noteq> 0"
  shows "utf8_len (s @ t) = utf8_len s"
proof (cases s)
  case Nil
  then show ?thesis using assms by (simp add: utf8_len_def)
next
  case (Cons c0 r)
  have n: "lead_size c0 \<le> Suc (length r)" "lead_size c0 \<noteq> 0"
    using assms Cons by (auto simp: utf8_len_def Let_def split: if_splits)
  show ?thesis
    unfolding Cons using n lead_size_cases [of c0]
    by (auto simp: utf8_len_def Let_def nth_append nth_Cons' not_less)
qed


lemma utf8_len_Cons:
  "utf8_len (c0 # r) =
     (if lead_size c0 = 0 \<or> Suc (length r) < lead_size c0 then 0
      else if \<not> in_range (accept_lo c0) (accept_hi c0) (r ! 0) then 0
      else if lead_size c0 \<le> 2 then 2
      else if \<not> is_cont (r ! 1) then 0
      else if lead_size c0 \<le> 3 then 3
      else if \<not> is_cont (r ! 2) then 0
      else 4)"
  by (simp add: utf8_len_def Let_def)

lemma utf8_len_closed:
  assumes "lex_string cs = Inr x"
  shows "utf8_len (c # cs @ t) = utf8_len (c # cs)"
proof (cases "lead_size c \<le> Suc (length cs)")
  case True
  have "utf8_len (c # cs) = 0 \<or> utf8_len (c # cs) \<noteq> 0" by blast
  then show ?thesis
  proof
    assume "utf8_len (c # cs) \<noteq> 0"
    then show ?thesis using utf8_len_append [of "c # cs" t] by simp
  next
    assume z: "utf8_len (c # cs) = 0"
    have k: "lead_size c = 2 \<longrightarrow> (cs @ t) ! 0 = cs ! 0"
      "lead_size c = 3 \<longrightarrow> (cs @ t) ! 0 = cs ! 0 \<and> (cs @ t) ! 1 = cs ! 1"
      "lead_size c = 4 \<longrightarrow> (cs @ t) ! 0 = cs ! 0 \<and> (cs @ t) ! 1 = cs ! 1 \<and> (cs @ t) ! 2 = cs ! 2"
      using True by (auto simp: nth_append)
    show ?thesis
      using z k True lead_size_cases [of c]
      unfolding utf8_len_Cons [of c cs] utf8_len_Cons [of c "cs @ t"]
      by (auto split: if_splits)
  qed
next
  case False
  then have z: "utf8_len (c # cs) = 0" by (simp add: utf8_len_Cons)
  have ne: "cs \<noteq> []" using assms lex_string_Nil by blast
  have len: "length cs < 3" using False lead_size_cases [of c] by auto
  have big: "lead_size c = 3 \<or> lead_size c = 4" using False ne lead_size_cases [of c]
    by (cases cs) auto
  consider a where "cs = [a]" | a b where "cs = [a, b]"
    using ne len by (cases cs; cases "tl cs"; cases "tl (tl cs)") auto
  then have "utf8_len (c # cs @ t) = 0"
  proof cases
    case 1
    then have "a = dquote" using assms lex_string_single by blast
    then have "\<not> in_range (accept_lo c) (accept_hi c) ((cs @ t) ! 0)"
      using 1 dquote_not_accepted by simp
    then show ?thesis by (simp add: utf8_len_Cons)
  next
    case 2
    then have "a = dquote \<or> b = dquote" using assms lex_string_pair by blast
    then have "\<not> in_range (accept_lo c) (accept_hi c) ((cs @ t) ! 0) \<or> \<not> is_cont ((cs @ t) ! 1)"
      using 2 dquote_not_accepted dquote_not_cont by auto
    then show ?thesis using big by (auto simp: utf8_len_Cons)
  qed
  then show ?thesis using z by simp
qed


lemma lex_escape_simple:
  "e \<noteq> CHR ''u'' \<Longrightarrow>
   lex_escape (e # rest) =
     (case lex_escape [e] of Inl err \<Rightarrow> Inl err | Inr (out, _) \<Rightarrow> Inr (out, rest))"
  by (simp add: lex_escape_def)

lemma lex_escape_simple_append:
  assumes "lex_escape (e # rest) = Inr (out, r1)" and "e \<noteq> CHR ''u''"
  shows "lex_escape ((e # rest) @ t) = Inr (out, r1 @ t)"
proof -
  have a: "lex_escape (e # rest) =
      (case lex_escape [e] of Inl err \<Rightarrow> Inl err | Inr (out, _) \<Rightarrow> Inr (out, rest))"
    using assms(2) by (rule lex_escape_simple)
  have b: "lex_escape (e # rest @ t) =
      (case lex_escape [e] of Inl err \<Rightarrow> Inl err | Inr (out, _) \<Rightarrow> Inr (out, rest @ t))"
    using assms(2) by (rule lex_escape_simple)
  show ?thesis
    using assms(1) unfolding a append_Cons b
    by (cases "lex_escape [e]") auto
qed

lemma lex_escape_u:
  assumes h: "hex_digits 4 0 rest = Inr (rr, r')"
  shows "lex_escape (CHR ''u'' # rest) =
        (if 0xD800 \<le> rr \<and> rr < 0xE000 then
           (case getu4 r' of
              None \<Rightarrow> Inr (replacement_char, r')
            | Some rr1 \<Rightarrow>
                if rr < 0xDC00 \<and> 0xDC00 \<le> rr1 \<and> rr1 < 0xE000
                then Inr (utf8_encode (0x10000 + (rr - 0xD800) * 1024 + (rr1 - 0xDC00)), drop 6 r')
                else Inr (replacement_char, r'))
         else Inr (utf8_encode rr, r'))"
  using h by (simp add: lex_escape_def dquote_def backslash_def)

lemma lex_escape_u_hex:
  assumes "lex_escape (CHR ''u'' # rest) = Inr (out, r1)"
  shows "\<exists>rr r'. hex_digits 4 0 rest = Inr (rr, r')"
  using assms
  by (cases "hex_digits 4 0 rest") (auto simp: lex_escape_def dquote_def backslash_def)

lemma lex_escape_append:
  assumes "lex_escape cs = Inr (out, r1)" and "lex_string r1 = Inr x"
  shows "lex_escape (cs @ t) = Inr (out, r1 @ t)"
proof (cases cs)
  case Nil
  then show ?thesis using assms(1) by (simp add: lex_escape_def)
next
  case (Cons e rest)
  show ?thesis
  proof (cases "e = CHR ''u''")
    case False
    then show ?thesis using assms(1) Cons lex_escape_simple_append by blast
  next
    case True
    obtain rr r' where h: "hex_digits 4 0 rest = Inr (rr, r')"
      using assms(1) Cons True lex_escape_u_hex by blast
    have h': "hex_digits 4 0 (rest @ t) = Inr (rr, r' @ t)"
      using h by (rule hex_digits_append)
    define sur where "sur \<longleftrightarrow> 0xD800 \<le> rr \<and> rr < 0xE000"
    define pair where "pair = (\<lambda>rr1. rr < 0xDC00 \<and> 0xDC00 \<le> rr1 \<and> rr1 < (0xE000::nat))"
    define enc where
      "enc = (\<lambda>rr1. utf8_encode (0x10000 + (rr - 0xD800) * 1024 + (rr1 - 0xDC00)))"
    have e1: "lex_escape cs =
        (if sur then
           (case getu4 r' of
              None \<Rightarrow> Inr (replacement_char, r')
            | Some rr1 \<Rightarrow>
                if pair rr1 then Inr (enc rr1, drop 6 r') else Inr (replacement_char, r'))
         else Inr (utf8_encode rr, r'))"
      unfolding sur_def pair_def enc_def Cons True
      by (rule lex_escape_u [OF h])
    have e2: "lex_escape (cs @ t) =
        (if sur then
           (case getu4 (r' @ t) of
              None \<Rightarrow> Inr (replacement_char, r' @ t)
            | Some rr1 \<Rightarrow>
                if pair rr1 then Inr (enc rr1, drop 6 (r' @ t))
                else Inr (replacement_char, r' @ t))
         else Inr (utf8_encode rr, r' @ t))"
      unfolding sur_def pair_def enc_def Cons True append_Cons
      by (rule lex_escape_u [OF h'])
    show ?thesis
    proof (cases "getu4 r'")
      case None
      then have r1: "sur \<longrightarrow> r1 = r'"
        using assms(1) e1 by (auto split: if_splits)
      have "sur \<longrightarrow> getu4 (r' @ t) = None"
        using r1 assms(2) None getu4_append_closed [of r' x t] by auto
      then show ?thesis using assms(1) None unfolding e1 e2
        by (auto split: if_splits)
    next
      case (Some rr1)
      then have g: "getu4 (r' @ t) = Some rr1" and l: "6 \<le> length r'"
        using getu4_Some_append [of r' rr1 t] by simp_all
      have d: "drop 6 (r' @ t) = drop 6 r' @ t" using l by simp
      show ?thesis using assms(1) Some unfolding e1 e2 g d
        by (auto split: if_splits)
    qed
  qed
qed

lemma take_drop_append_le:
  "n \<le> length xs \<Longrightarrow> take n (xs @ t) = take n xs \<and> drop n (xs @ t) = drop n xs @ t"
  by simp

lemma string_step_append:
  assumes "string_step c cs = Inr (out, r1)" and "lex_string r1 = Inr x"
  shows "string_step c (cs @ t) = Inr (out, r1 @ t)"
proof (cases "c = backslash")
  case True
  then show ?thesis using assms lex_escape_append by (simp add: string_step_def)
next
  case False
  note nb = False
  show ?thesis
  proof (cases "byte c < 0x80")
    case True
    then show ?thesis using assms(1) nb
      by (auto simp: string_step_def split: if_splits)
  next
    case False
    then have hi: "\<not> byte c < 0x20" by simp
    show ?thesis
    proof (cases "utf8_len (c # cs) = 0")
      case True
      then have "out = replacement_char" "r1 = cs"
        using assms(1) nb False hi by (simp_all add: string_step_def)
      moreover have "utf8_len (c # cs @ t) = 0"
        using True utf8_len_closed [of cs x c t] assms(2) \<open>r1 = cs\<close> by simp
      ultimately show ?thesis using nb False hi by (simp add: string_step_def)
    next
      case nz: False
      have o: "out = take (utf8_len (c # cs)) (c # cs)" "r1 = drop (utf8_len (c # cs)) (c # cs)"
        using assms(1) nb False hi nz by (simp_all add: string_step_def Let_def)
      have a: "utf8_len (c # cs @ t) = utf8_len (c # cs)"
        using utf8_len_append [OF nz, of t] by simp
      have le: "utf8_len (c # cs) \<le> length (c # cs)" by (rule utf8_len_le)
      have td: "take (utf8_len (c # cs)) (c # cs @ t) = take (utf8_len (c # cs)) (c # cs)"
        "drop (utf8_len (c # cs)) (c # cs @ t) = drop (utf8_len (c # cs)) (c # cs) @ t"
        using take_drop_append_le [OF le, of t] unfolding append_Cons by blast+
      have "string_step c (cs @ t) =
              Inr (take (utf8_len (c # cs @ t)) (c # cs @ t), drop (utf8_len (c # cs @ t)) (c # cs @ t))"
        using nb False hi nz a by (simp add: string_step_def Let_def del: take_Suc_Cons drop_Suc_Cons)
      then show ?thesis unfolding a td o .
    qed
  qed
qed

lemma lex_string_append:
  "lex_string cs = Inr (s, r) \<Longrightarrow> lex_string (cs @ t) = Inr (s, r @ t)"
proof (induction cs arbitrary: s r rule: lex_string.induct)
  case 1
  then show ?case by simp
next
  case (2 c cs)
  show ?case
  proof (cases "c = dquote")
    case True
    then show ?thesis using "2.prems" by simp
  next
    case False
    obtain out r1 s1 r' where
      st: "string_step c cs = Inr (out, r1)" and
      ls: "lex_string r1 = Inr (s1, r')" and
      x: "(s, r) = (out @ s1, r')"
      using lex_string_Cons [OF False "2.prems"] by blast
    have ih: "lex_string (r1 @ t) = Inr (s1, r' @ t)"
      using "2.IH" False st ls by blast
    have st': "string_step c (cs @ t) = Inr (out, r1 @ t)"
      using st ls by (rule string_step_append)
    have "lex_string (c # (cs @ t)) = Inr (out @ s1, r' @ t)"
      using False st' ih by (simp del: append_assoc)
    then show ?thesis using x by simp
  qed
qed

lemma lex_literal_append:
  "lex_literal name xs cs = Inr r \<Longrightarrow> lex_literal name xs (cs @ t) = Inr (r @ t)"
  by (induction name xs cs rule: lex_literal.induct) (auto split: if_splits)


lemma span_append:
  "dropWhile P xs \<noteq> [] \<Longrightarrow>
   takeWhile P (xs @ t) = takeWhile P xs \<and> dropWhile P (xs @ t) = dropWhile P xs @ t"
  by (induction xs) auto

lemma lex_int_append:
  assumes "lex_int cs = Inr (x, r)" and "r \<noteq> []"
  shows "lex_int (cs @ t) = Inr (x, r @ t)"
proof (cases cs)
  case Nil
  then show ?thesis using assms by (simp add: lex_int_def)
next
  case (Cons d rest)
  show ?thesis
  proof (cases "d = CHR ''0''")
    case True
    then show ?thesis using assms Cons by (simp add: lex_int_def)
  next
    case False
    then have d: "in_range 49 57 d" and x: "x = d # takeWhile isDigit rest"
      and r: "r = dropWhile isDigit rest"
      using assms(1) Cons by (auto simp: lex_int_def split: if_splits)
    have "dropWhile isDigit rest \<noteq> []" using r assms(2) by simp
    then have "takeWhile isDigit (rest @ t) = takeWhile isDigit rest"
      "dropWhile isDigit (rest @ t) = dropWhile isDigit rest @ t"
      using span_append by blast+
    then show ?thesis using False d x r Cons by (simp add: lex_int_def)
  qed
qed

lemma lex_frac_append:
  assumes "lex_frac cs = Inr (x, r)" and "r \<noteq> []"
  shows "lex_frac (cs @ t) = Inr (x, r @ t)"
proof (cases cs)
  case Nil
  then show ?thesis using assms by (simp add: lex_frac_def)
next
  case (Cons p rest)
  show ?thesis
  proof (cases "p = CHR ''.''")
    case False
    then have "x = []" "r = p # rest" using assms(1) Cons by (auto simp: lex_frac_def)
    then show ?thesis using False Cons by (simp add: lex_frac_def)
  next
    case True
    then obtain d rest' where rest: "rest = d # rest'"
      using assms(1) Cons by (cases rest) (auto simp: lex_frac_def)
    have d: "isDigit d" and x: "x = p # takeWhile isDigit rest"
      and r: "r = dropWhile isDigit rest"
      using assms(1) Cons True rest by (auto simp: lex_frac_def split: if_splits)
    have "dropWhile isDigit rest \<noteq> []" using r assms(2) by simp
    then have "takeWhile isDigit (rest @ t) = takeWhile isDigit rest"
      "dropWhile isDigit (rest @ t) = dropWhile isDigit rest @ t"
      using span_append by blast+
    then show ?thesis using True d x r Cons rest by (simp add: lex_frac_def)
  qed
qed

lemma lex_exp_append:
  assumes "lex_exp cs = Inr (x, r)" and "r \<noteq> []"
  shows "lex_exp (cs @ t) = Inr (x, r @ t)"
proof (cases cs)
  case Nil
  then show ?thesis using assms by (simp add: lex_exp_def)
next
  case (Cons e rest)
  show ?thesis
  proof (cases "e = CHR ''e'' \<or> e = CHR ''E''")
    case False
    then have "x = []" "r = e # rest" using assms(1) Cons by (auto simp: lex_exp_def)
    then show ?thesis using False Cons by (simp add: lex_exp_def)
  next
    case True
    define sign where
      "sign = (case rest of [] \<Rightarrow> [] | s # _ \<Rightarrow> if s = CHR ''+'' \<or> s = CHR ''-'' then [s] else [])"
    define r2 where "r2 = drop (length sign) rest"
    have e1: "lex_exp cs =
       (case r2 of
          [] \<Rightarrow> Inl ErrUnexpectedEOF
        | d # _ \<Rightarrow>
            if isDigit d then Inr (e # sign @ takeWhile isDigit r2, dropWhile isDigit r2)
            else Inl (SyntaxError d ''in exponent of numeric literal''))"
      unfolding sign_def r2_def lex_exp_def Let_def Cons list.case
      using True by auto
    obtain d r2' where r2: "r2 = d # r2'"
      using assms(1) e1 by (cases r2) auto
    have ne: "rest \<noteq> []" using r2 r2_def by auto
    have sign': "(case rest @ t of [] \<Rightarrow> [] | s # _ \<Rightarrow> if s = CHR ''+'' \<or> s = CHR ''-'' then [s] else [])
                 = sign"
      using ne by (cases rest) (simp_all add: sign_def)
    have len: "length sign \<le> length rest"
      using ne by (cases rest) (simp_all add: sign_def)
    have r2': "drop (length sign) (rest @ t) = r2 @ t"
      using len by (simp add: r2_def)
    have e2: "lex_exp (cs @ t) =
       (case r2 @ t of
          [] \<Rightarrow> Inl ErrUnexpectedEOF
        | d # _ \<Rightarrow>
            if isDigit d then Inr (e # sign @ takeWhile isDigit (r2 @ t), dropWhile isDigit (r2 @ t))
            else Inl (SyntaxError d ''in exponent of numeric literal''))"
      unfolding lex_exp_def Let_def Cons append_Cons list.case sign' r2'
      using True by auto
    have d: "isDigit d" and x: "x = e # sign @ takeWhile isDigit r2"
      and r: "r = dropWhile isDigit r2"
      using assms(1) e1 r2 by (auto split: if_splits)
    have "dropWhile isDigit r2 \<noteq> []" using r assms(2) by simp
    then have "takeWhile isDigit (r2 @ t) = takeWhile isDigit r2"
      "dropWhile isDigit (r2 @ t) = dropWhile isDigit r2 @ t"
      using span_append by blast+
    then show ?thesis using e2 r2 d x r by simp
  qed
qed

lemma lex_number_append:
  assumes "lex_number cs = Inr (x, r)" and "r \<noteq> []"
  shows "lex_number (cs @ t) = Inr (x, r @ t)"
proof -
  define sign where
    "sign = (case cs of [] \<Rightarrow> [] | s # _ \<Rightarrow> if s = CHR ''-'' then [s] else [])"
  obtain ip r1 fp r2 ep where
    i: "lex_int (drop (length sign) cs) = Inr (ip, r1)" and
    f: "lex_frac r1 = Inr (fp, r2)" and
    e: "lex_exp r2 = Inr (ep, r)" and
    x: "x = sign @ ip @ fp @ ep"
    using assms(1) unfolding lex_number_def Let_def sign_def
    by (auto split: sum.splits)
  have r2: "r2 \<noteq> []" using lex_exp_length [OF e] assms(2) by auto
  have r1: "r1 \<noteq> []" using lex_frac_length [OF f] r2 by auto
  have ne: "cs \<noteq> []" using i by (auto simp: lex_int_def)
  have sign': "(case cs @ t of [] \<Rightarrow> [] | s # _ \<Rightarrow> if s = CHR ''-'' then [s] else []) = sign"
    using ne by (cases cs) (simp_all add: sign_def)
  have len: "length sign \<le> length cs"
    using ne by (cases cs) (simp_all add: sign_def)
  have dr: "drop (length sign) (cs @ t) = drop (length sign) cs @ t"
    using len by simp
  have i': "lex_int (drop (length sign) (cs @ t)) = Inr (ip, r1 @ t)"
    unfolding dr using i r1 by (rule lex_int_append)
  have f': "lex_frac (r1 @ t) = Inr (fp, r2 @ t)"
    using f r2 by (rule lex_frac_append)
  have e': "lex_exp (r2 @ t) = Inr (ep, r @ t)"
    using e assms(2) by (rule lex_exp_append)
  show ?thesis
    unfolding lex_number_def Let_def sign' using i' f' e' x by simp
qed

subsection \<open>The scanner\<close>

lemma scan_Nil:
  "scan BeginValue st [] = Inl (if st = [] then EOF else ErrUnexpectedEOF)"
  "scan BeginValueOrEmpty st [] = Inl ErrUnexpectedEOF"
  "scan BeginStringOrEmpty st [] = Inl ErrUnexpectedEOF"
  "scan (BeginString ms) st [] = Inl ErrUnexpectedEOF"
  "scan (EndKey ms k) st [] = Inl ErrUnexpectedEOF"
  "scan (EndValue v) (f # st') [] = Inl ErrUnexpectedEOF"
  "scan (EndValue v) [] cs = Inr (v, cs)"
  by simp_all

lemma scan_BeginValue_Cons:
  "scan BeginValue st (c # r) =
     (if isSpace c then scan BeginValue st r
      else if c = CHR ''{'' then
        (if maxNestingDepth \<le> length st then Inl (SyntaxError c ''exceeded max depth'')
         else scan BeginStringOrEmpty st r)
      else if c = CHR ''['' then
        (if maxNestingDepth \<le> length st then Inl (SyntaxError c ''exceeded max depth'')
         else scan BeginValueOrEmpty st r)
      else if c = dquote then
        (case lex_string r of
           Inl e \<Rightarrow> Inl e
         | Inr (s, r') \<Rightarrow> scan (EndValue (JString s)) st r')
      else if c = CHR ''-'' \<or> isDigit c then
        (case lex_number (c # r) of
           Inl e \<Rightarrow> Inl e
         | Inr (n, r') \<Rightarrow> scan (EndValue (JNumber n)) st r')
      else if c = CHR ''t'' then
        (case lex_literal ''true'' ''rue'' r of
           Inl e \<Rightarrow> Inl e
         | Inr r' \<Rightarrow> scan (EndValue (JBool True)) st r')
      else if c = CHR ''f'' then
        (case lex_literal ''false'' ''alse'' r of
           Inl e \<Rightarrow> Inl e
         | Inr r' \<Rightarrow> scan (EndValue (JBool False)) st r')
      else if c = CHR ''n'' then
        (case lex_literal ''null'' ''ull'' r of
           Inl e \<Rightarrow> Inl e
         | Inr r' \<Rightarrow> scan (EndValue JNull) st r')
      else Inl (SyntaxError c ''looking for beginning of value''))"
  by simp

lemma scan_BeginValueOrEmpty_Cons:
  "scan BeginValueOrEmpty st (c # r) =
     (if isSpace c then scan BeginValueOrEmpty st r
      else if c = CHR '']'' then scan (EndValue (JArray [])) st r
      else scan BeginValue (InArray [] # st) (c # r))"
  by simp

lemma scan_BeginStringOrEmpty_Cons:
  "scan BeginStringOrEmpty st (c # r) =
     (if isSpace c then scan BeginStringOrEmpty st r
      else if c = CHR ''}'' then scan (EndValue (JObject [])) st r
      else scan (BeginString []) st (c # r))"
  by simp

lemma scan_BeginString_Cons:
  "scan (BeginString ms) st (c # r) =
     (if isSpace c then scan (BeginString ms) st r
      else if c = dquote then
        (case lex_string r of
           Inl e \<Rightarrow> Inl e
         | Inr (k, r') \<Rightarrow> scan (EndKey ms k) st r')
      else Inl (SyntaxError c ''looking for beginning of object key string''))"
  by simp

lemma scan_EndKey_Cons:
  "scan (EndKey ms k) st (c # r) =
     (if isSpace c then scan (EndKey ms k) st r
      else if c = CHR '':'' then scan BeginValue (InObjectValue ms k # st) r
      else Inl (SyntaxError c ''after object key''))"
  by simp

lemma scan_EndValue_Cons:
  "scan (EndValue v) (f # st') (c # r) =
     (if isSpace c then scan (EndValue v) (f # st') r
      else
        (case f of
           InObjectValue ms k \<Rightarrow>
             if c = CHR '','' then scan (BeginString (ms @ [(k, v)])) st' r
             else if c = CHR ''}'' then scan (EndValue (JObject (ms @ [(k, v)]))) st' r
             else Inl (SyntaxError c ''after object key:value pair'')
         | InArray es \<Rightarrow>
             if c = CHR '','' then scan BeginValue (InArray (es @ [v]) # st') r
             else if c = CHR '']'' then scan (EndValue (JArray (es @ [v]))) st' r
             else Inl (SyntaxError c ''after array element'')))"
  by simp

lemma number_has_rest:
  assumes "scan (EndValue (JNumber n)) st r' = Inr (v, r)" and "settled v r"
  shows "r' \<noteq> []"
proof (cases st)
  case Nil
  then show ?thesis using assms by (auto simp: scan_Nil settled_def simp del: scan.simps)
next
  case (Cons f st')
  then show ?thesis using assms by (auto simp: scan_Nil simp del: scan.simps)
qed

lemma stableI:
  "(\<And>v r. scan s st cs = Inr (v, r) \<Longrightarrow> settled v r \<Longrightarrow> scan s st (cs @ t) = Inr (v, r @ t))
   \<Longrightarrow> stable t s st cs"
  by (simp add: stable_def)

lemma stableD:
  "stable t s st cs \<Longrightarrow> scan s st cs = Inr (v, r) \<Longrightarrow> settled v r \<Longrightarrow>
   scan s st (cs @ t) = Inr (v, r @ t)"
  by (simp add: stable_def)

lemma stable_EndKey:
  assumes "\<And>c rest. \<lbrakk>cs = c # rest; isSpace c\<rbrakk> \<Longrightarrow> stable t (EndKey ms k) st rest"
    and "\<And>c rest. \<lbrakk>cs = c # rest; \<not> isSpace c; c = CHR '':''\<rbrakk>
           \<Longrightarrow> stable t BeginValue (InObjectValue ms k # st) rest"
  shows "stable t (EndKey ms k) st cs"
proof (rule stableI)
  fix v r
  assume p: "scan (EndKey ms k) st cs = Inr (v, r)" "settled v r"
  show "scan (EndKey ms k) st (cs @ t) = Inr (v, r @ t)"
  proof (cases cs)
    case Nil
    then show ?thesis using p by (simp add: scan_Nil del: scan.simps)
  next
    case (Cons c rest)
    then show ?thesis using p assms [OF Cons]
      by (auto simp: scan_EndKey_Cons simp del: scan.simps split: if_splits dest: stableD)
  qed
qed


lemma stable_BeginValueOrEmpty:
  assumes "\<And>c rest. \<lbrakk>cs = c # rest; isSpace c\<rbrakk> \<Longrightarrow> stable t BeginValueOrEmpty st rest"
    and "\<And>c rest. \<lbrakk>cs = c # rest; \<not> isSpace c; c = CHR '']''\<rbrakk>
           \<Longrightarrow> stable t (EndValue (JArray [])) st rest"
    and "\<And>c rest. \<lbrakk>cs = c # rest; \<not> isSpace c; c \<noteq> CHR '']''\<rbrakk>
           \<Longrightarrow> stable t BeginValue (InArray [] # st) cs"
  shows "stable t BeginValueOrEmpty st cs"
proof (rule stableI)
  fix v r
  assume p: "scan BeginValueOrEmpty st cs = Inr (v, r)" "settled v r"
  show "scan BeginValueOrEmpty st (cs @ t) = Inr (v, r @ t)"
  proof (cases cs)
    case Nil
    then show ?thesis using p by (simp add: scan_Nil del: scan.simps)
  next
    case (Cons c rest)
    then show ?thesis using p assms [OF Cons]
      by (auto simp: scan_BeginValueOrEmpty_Cons simp del: scan.simps split: if_splits
          dest: stableD)
  qed
qed

lemma stable_BeginStringOrEmpty:
  assumes "\<And>c rest. \<lbrakk>cs = c # rest; isSpace c\<rbrakk> \<Longrightarrow> stable t BeginStringOrEmpty st rest"
    and "\<And>c rest. \<lbrakk>cs = c # rest; \<not> isSpace c; c = CHR ''}''\<rbrakk>
           \<Longrightarrow> stable t (EndValue (JObject [])) st rest"
    and "\<And>c rest. \<lbrakk>cs = c # rest; \<not> isSpace c; c \<noteq> CHR ''}''\<rbrakk>
           \<Longrightarrow> stable t (BeginString []) st cs"
  shows "stable t BeginStringOrEmpty st cs"
proof (rule stableI)
  fix v r
  assume p: "scan BeginStringOrEmpty st cs = Inr (v, r)" "settled v r"
  show "scan BeginStringOrEmpty st (cs @ t) = Inr (v, r @ t)"
  proof (cases cs)
    case Nil
    then show ?thesis using p by (simp add: scan_Nil del: scan.simps)
  next
    case (Cons c rest)
    then show ?thesis using p assms [OF Cons]
      by (auto simp: scan_BeginStringOrEmpty_Cons simp del: scan.simps split: if_splits
          dest: stableD)
  qed
qed


lemma stable_BeginString:
  assumes "\<And>c rest. \<lbrakk>cs = c # rest; isSpace c\<rbrakk> \<Longrightarrow> stable t (BeginString ms) st rest"
    and "\<And>c rest b x y. \<lbrakk>cs = c # rest; \<not> isSpace c; c = dquote; lex_string rest = Inr b;
            (x, y) = b\<rbrakk> \<Longrightarrow> stable t (EndKey ms x) st y"
  shows "stable t (BeginString ms) st cs"
proof (rule stableI)
  fix v r
  assume p: "scan (BeginString ms) st cs = Inr (v, r)" "settled v r"
  show "scan (BeginString ms) st (cs @ t) = Inr (v, r @ t)"
  proof (cases cs)
    case Nil
    then show ?thesis using p by (simp add: scan_Nil del: scan.simps)
  next
    case (Cons c rest)
    note u = scan_BeginString_Cons [of ms st c rest] scan_BeginString_Cons [of ms st c "rest @ t"]
    show ?thesis
    proof (cases "isSpace c")
      case True
      then have "scan (BeginString ms) st rest = Inr (v, r)"
        using p(1) unfolding Cons u by simp
      then have "scan (BeginString ms) st (rest @ t) = Inr (v, r @ t)"
        using assms(1) [OF Cons True] p(2) stableD by blast
      then show ?thesis unfolding Cons append_Cons u using True by simp
    next
      case False
      have q: "c = dquote" using p(1) False unfolding Cons u by (auto split: if_splits)
      obtain k r' where l: "lex_string rest = Inr (k, r')"
        and e: "scan (EndKey ms k) st r' = Inr (v, r)"
        using p(1) False q unfolding Cons u by (auto split: sum.splits)
      have "scan (EndKey ms k) st (r' @ t) = Inr (v, r @ t)"
        using assms(2) [OF Cons False q l refl] e p(2) by (rule stableD)
      moreover have "lex_string (rest @ t) = Inr (k, r' @ t)"
        using l by (rule lex_string_append)
      ultimately show ?thesis unfolding Cons append_Cons u using False q by simp
    qed
  qed
qed

lemma stable_EndValue:
  assumes "\<And>f st' c rest. \<lbrakk>st = f # st'; cs = c # rest; isSpace c\<rbrakk>
        \<Longrightarrow> stable t (EndValue v') st rest"
    and "\<And>f st' c rest es. \<lbrakk>st = f # st'; cs = c # rest; \<not> isSpace c; f = InArray es;
         c = CHR '',''\<rbrakk> \<Longrightarrow> stable t BeginValue (InArray (es @ [v']) # st') rest"
    and "\<And>f st' c rest es. \<lbrakk>st = f # st'; cs = c # rest; \<not> isSpace c; f = InArray es;
         c \<noteq> CHR '',''; c = CHR '']''\<rbrakk> \<Longrightarrow> stable t (EndValue (JArray (es @ [v']))) st' rest"
    and "\<And>f st' c rest ms k. \<lbrakk>st = f # st'; cs = c # rest; \<not> isSpace c;
         f = InObjectValue ms k; c = CHR '',''\<rbrakk>
        \<Longrightarrow> stable t (BeginString (ms @ [(k, v')])) st' rest"
    and "\<And>f st' c rest ms k. \<lbrakk>st = f # st'; cs = c # rest; \<not> isSpace c;
         f = InObjectValue ms k; c \<noteq> CHR '',''; c = CHR ''}''\<rbrakk>
        \<Longrightarrow> stable t (EndValue (JObject (ms @ [(k, v')]))) st' rest"
  shows "stable t (EndValue v') st cs"
proof (rule stableI)
  fix v r
  assume p: "scan (EndValue v') st cs = Inr (v, r)" "settled v r"
  show "scan (EndValue v') st (cs @ t) = Inr (v, r @ t)"
  proof (cases st)
    case Nil
    then show ?thesis using p by (simp add: scan_Nil del: scan.simps)
  next
    case st: (Cons f st')
    show ?thesis
    proof (cases cs)
      case Nil
      then show ?thesis using p st by (simp add: scan_Nil del: scan.simps)
    next
      case (Cons c rest)
      show ?thesis
      proof (cases f)
        case (InArray es)
        then show ?thesis
          using p st Cons assms(1) [OF st Cons] assms(2) [OF st Cons _ InArray]
            assms(3) [OF st Cons _ InArray]
          by (auto simp: scan_EndValue_Cons simp del: scan.simps split: if_splits
              dest: stableD)
      next
        case (InObjectValue ms k)
        then show ?thesis
          using p st Cons assms(1) [OF st Cons] assms(4) [OF st Cons _ InObjectValue]
            assms(5) [OF st Cons _ InObjectValue]
          by (auto simp: scan_EndValue_Cons simp del: scan.simps split: if_splits
              dest: stableD)
      qed
    qed
  qed
qed


lemma stable_BeginValue:
  assumes "\<And>c rest. \<lbrakk>cs = c # rest; isSpace c\<rbrakk> \<Longrightarrow> stable t BeginValue st rest"
    and "\<And>c rest. \<lbrakk>cs = c # rest; \<not> isSpace c; c = CHR ''{'';
           \<not> maxNestingDepth \<le> length st\<rbrakk> \<Longrightarrow> stable t BeginStringOrEmpty st rest"
    and "\<And>c rest. \<lbrakk>cs = c # rest; \<not> isSpace c; c \<noteq> CHR ''{''; c = CHR ''['';
           \<not> maxNestingDepth \<le> length st\<rbrakk> \<Longrightarrow> stable t BeginValueOrEmpty st rest"
    and "\<And>c rest b x y. \<lbrakk>cs = c # rest; \<not> isSpace c; c \<noteq> CHR ''{''; c \<noteq> CHR ''['';
           c = dquote; lex_string rest = Inr b; (x, y) = b\<rbrakk>
          \<Longrightarrow> stable t (EndValue (JString x)) st y"
    and "\<And>c rest b x y. \<lbrakk>cs = c # rest; \<not> isSpace c; c \<noteq> CHR ''{''; c \<noteq> CHR ''['';
           c \<noteq> dquote; c = CHR ''-'' \<or> isDigit c; lex_number cs = Inr b; (x, y) = b\<rbrakk>
          \<Longrightarrow> stable t (EndValue (JNumber x)) st y"
    and "\<And>c rest b. \<lbrakk>cs = c # rest; \<not> isSpace c; c \<noteq> CHR ''{''; c \<noteq> CHR ''['';
           c \<noteq> dquote; \<not> (c = CHR ''-'' \<or> isDigit c); c = CHR ''t'';
           lex_literal ''true'' ''rue'' rest = Inr b\<rbrakk>
          \<Longrightarrow> stable t (EndValue (JBool True)) st b"
    and "\<And>c rest b. \<lbrakk>cs = c # rest; \<not> isSpace c; c \<noteq> CHR ''{''; c \<noteq> CHR ''['';
           c \<noteq> dquote; \<not> (c = CHR ''-'' \<or> isDigit c); c \<noteq> CHR ''t''; c = CHR ''f'';
           lex_literal ''false'' ''alse'' rest = Inr b\<rbrakk>
          \<Longrightarrow> stable t (EndValue (JBool False)) st b"
    and "\<And>c rest b. \<lbrakk>cs = c # rest; \<not> isSpace c; c \<noteq> CHR ''{''; c \<noteq> CHR ''['';
           c \<noteq> dquote; \<not> (c = CHR ''-'' \<or> isDigit c); c \<noteq> CHR ''t''; c \<noteq> CHR ''f'';
           c = CHR ''n''; lex_literal ''null'' ''ull'' rest = Inr b\<rbrakk>
          \<Longrightarrow> stable t (EndValue JNull) st b"
  shows "stable t BeginValue st cs"
proof (rule stableI)
  fix v r
  assume p: "scan BeginValue st cs = Inr (v, r)" "settled v r"
  show "scan BeginValue st (cs @ t) = Inr (v, r @ t)"
  proof (cases cs)
    case Nil
    then show ?thesis using p by (simp add: scan_Nil del: scan.simps)
  next
    case (Cons c rest)
    note u = scan_BeginValue_Cons [of st c rest] scan_BeginValue_Cons [of st c "rest @ t"]
    show ?thesis
    proof (cases "isSpace c")
      case True
      then have "scan BeginValue st rest = Inr (v, r)"
        using p(1) unfolding Cons u by simp
      then have "scan BeginValue st (rest @ t) = Inr (v, r @ t)"
        using assms(1) [OF Cons True] p(2) stableD by blast
      then show ?thesis unfolding Cons append_Cons u using True by simp
    next
      case False
      note ns = False
      show ?thesis
      proof (cases "c = CHR ''{''")
        case True
        have d: "\<not> maxNestingDepth \<le> length st"
          using p(1) ns True unfolding Cons u by (auto split: if_splits)
        then have "scan BeginStringOrEmpty st rest = Inr (v, r)"
          using p(1) ns True unfolding Cons u by simp
        then have "scan BeginStringOrEmpty st (rest @ t) = Inr (v, r @ t)"
          using assms(2) [OF Cons ns True d] p(2) stableD by blast
        then show ?thesis unfolding Cons append_Cons u using ns True d by simp
      next
        case False
        note no = False
        show ?thesis
        proof (cases "c = CHR ''[''")
          case True
          have d: "\<not> maxNestingDepth \<le> length st"
            using p(1) ns no True unfolding Cons u by (auto split: if_splits)
          then have "scan BeginValueOrEmpty st rest = Inr (v, r)"
            using p(1) ns no True unfolding Cons u by simp
          then have "scan BeginValueOrEmpty st (rest @ t) = Inr (v, r @ t)"
            using assms(3) [OF Cons ns no True d] p(2) stableD by blast
          then show ?thesis unfolding Cons append_Cons u using ns no True d by simp
        next
          case False
          note na = False
          show ?thesis
          proof (cases "c = dquote")
            case True
            obtain s r' where l: "lex_string rest = Inr (s, r')"
              and e: "scan (EndValue (JString s)) st r' = Inr (v, r)"
              using p(1) ns no na True unfolding Cons u by (auto split: sum.splits)
            have "scan (EndValue (JString s)) st (r' @ t) = Inr (v, r @ t)"
              using assms(4) [OF Cons ns no na True l refl] e p(2) by (rule stableD)
            moreover have "lex_string (rest @ t) = Inr (s, r' @ t)"
              using l by (rule lex_string_append)
            ultimately show ?thesis
              unfolding Cons append_Cons u using ns no na True by simp
          next
            case False
            note nq = False
            show ?thesis
            proof (cases "c = CHR ''-'' \<or> isDigit c")
              case True
              obtain n r' where l: "lex_number (c # rest) = Inr (n, r')"
                and e: "scan (EndValue (JNumber n)) st r' = Inr (v, r)"
                using p(1) ns no na nq True unfolding Cons u by (auto split: sum.splits)
              have l': "lex_number cs = Inr (n, r')" using l Cons by simp
              have ne: "r' \<noteq> []" using e p(2) by (rule number_has_rest)
              have "scan (EndValue (JNumber n)) st (r' @ t) = Inr (v, r @ t)"
                using assms(5) [OF Cons ns no na nq True l' refl] e p(2) by (rule stableD)
              moreover have "lex_number (c # rest @ t) = Inr (n, r' @ t)"
                using lex_number_append [OF l ne, of t] by simp
              ultimately show ?thesis
                unfolding Cons append_Cons u using ns no na nq True by simp
            next
              case False
              note nn = False
              show ?thesis
              proof (cases "c = CHR ''t''")
                case True
                obtain r' where l: "lex_literal ''true'' ''rue'' rest = Inr r'"
                  and e: "scan (EndValue (JBool True)) st r' = Inr (v, r)"
                  using p(1) ns no na nq nn True unfolding Cons u by (auto split: sum.splits)
                have "scan (EndValue (JBool True)) st (r' @ t) = Inr (v, r @ t)"
                  using assms(6) [OF Cons ns no na nq nn True l] e p(2) by (rule stableD)
                moreover have "lex_literal ''true'' ''rue'' (rest @ t) = Inr (r' @ t)"
                  using l by (rule lex_literal_append)
                ultimately show ?thesis
                  unfolding Cons append_Cons u using ns no na nq nn True by simp
              next
                case False
                note nt = False
                show ?thesis
                proof (cases "c = CHR ''f''")
                  case True
                  obtain r' where l: "lex_literal ''false'' ''alse'' rest = Inr r'"
                    and e: "scan (EndValue (JBool False)) st r' = Inr (v, r)"
                    using p(1) ns no na nq nn nt True unfolding Cons u
                    by (auto split: sum.splits)
                  have "scan (EndValue (JBool False)) st (r' @ t) = Inr (v, r @ t)"
                    using assms(7) [OF Cons ns no na nq nn nt True l] e p(2) by (rule stableD)
                  moreover have "lex_literal ''false'' ''alse'' (rest @ t) = Inr (r' @ t)"
                    using l by (rule lex_literal_append)
                  ultimately show ?thesis
                    unfolding Cons append_Cons u using ns no na nq nn nt True by simp
                next
                  case False
                  note nf = False
                  show ?thesis
                  proof (cases "c = CHR ''n''")
                    case True
                    obtain r' where l: "lex_literal ''null'' ''ull'' rest = Inr r'"
                      and e: "scan (EndValue JNull) st r' = Inr (v, r)"
                      using p(1) ns no na nq nn nt nf True unfolding Cons u
                      by (auto split: sum.splits)
                    have "scan (EndValue JNull) st (r' @ t) = Inr (v, r @ t)"
                      using assms(8) [OF Cons ns no na nq nn nt nf True l] e p(2)
                      by (rule stableD)
                    moreover have "lex_literal ''null'' ''ull'' (rest @ t) = Inr (r' @ t)"
                      using l by (rule lex_literal_append)
                    ultimately show ?thesis
                      unfolding Cons append_Cons u using ns no na nq nn nt nf True by simp
                  next
                    case False
                    then show ?thesis
                      using p(1) ns no na nq nn nt nf unfolding Cons u by simp
                  qed
                qed
              qed
            qed
          qed
        qed
      qed
    qed
  qed
qed

lemma scan_stable: "stable t s st cs"
proof (induction s st cs rule: scan.induct)
  case (1 st cs)
  show ?case by (rule stable_BeginValue) (fact 1)+
next
  case (2 st cs)
  show ?case by (rule stable_BeginValueOrEmpty) (fact 2)+
next
  case (3 st cs)
  show ?case by (rule stable_BeginStringOrEmpty) (fact 3)+
next
  case (4 ms st cs)
  show ?case by (rule stable_BeginString) (fact 4)+
next
  case (5 ms k st cs)
  show ?case by (rule stable_EndKey) (fact 5)+
next
  case (6 v st cs)
  show ?case by (rule stable_EndValue) (fact 6)+
qed

lemma scan_append:
  "scan s st cs = Inr (v, r) \<Longrightarrow> settled v r \<Longrightarrow> scan s st (cs @ t) = Inr (v, r @ t)"
  using scan_stable stableD by blast

lemma Decode_append:
  assumes "Decode body u0 = (u, None)"
  shows "Decode (body @ t) u0 = (u, None)"
proof -
  obtain v rest where r: "readValue body = Inr (v, rest)"
    and un: "unmarshal v u0 = (u, None)"
    and k: "v = JNull \<or> v = JObject (members_of v)"
    using Decode_success [OF assms] by blast
  have "settled v rest" using k by (cases v) (auto simp: settled_def)
  then have "readValue (body @ t) = Inr (v, rest @ t)"
    using r scan_append by (simp add: readValue_def del: scan.simps)
  then show ?thesis using un by (simp add: Decode_def)
qed

text \<open>
  C10, as the code has it. A body that decodes without error decodes to the same Profile
  when arbitrary bytes follow it, and the value read is the same with those bytes left
  unread. The body \<open>null\<close>, alone or followed by arbitrary bytes, decodes without error
  to the Profile of zero values, which the lookup prints in the four-line format.
\<close>

theorem trailing_bytes_ignored:
  "(Decode body zero_GitHubUser = (u, None) \<longrightarrow>
      Decode (body @ trailing) zero_GitHubUser = (u, None)
    \<and> (\<exists>v rest. readValue body = Inr (v, rest)
          \<and> readValue (body @ trailing) = Inr (v, rest @ trailing)))
   \<and> Decode (''null'' @ trailing) zero_GitHubUser = (zero_GitHubUser, None)
   \<and> (http_Get w (user_url user) = Inr resp \<and> Body resp = ''null'' @ trailing \<longrightarrow>
        stdout (GetUser w user p) = stdout p @ format_profile zero_GitHubUser)"
proof -
  have a: "Decode (body @ trailing) zero_GitHubUser = (u, None)
    \<and> (\<exists>v rest. readValue body = Inr (v, rest)
          \<and> readValue (body @ trailing) = Inr (v, rest @ trailing))"
    if d: "Decode body zero_GitHubUser = (u, None)"
  proof -
    obtain v rest where r: "readValue body = Inr (v, rest)"
      and k: "v = JNull \<or> v = JObject (members_of v)"
      using Decode_success [OF d] by blast
    have "settled v rest" using k by (cases v) (auto simp: settled_def)
    then have "readValue (body @ trailing) = Inr (v, rest @ trailing)"
      using r scan_append by (simp add: readValue_def del: scan.simps)
    then show ?thesis using r Decode_append [OF d] by blast
  qed
  have n0: "Decode ''null'' zero_GitHubUser = (zero_GitHubUser, None)"
    by code_simp
  have n: "Decode (''null'' @ trailing) zero_GitHubUser = (zero_GitHubUser, None)"
    using n0 by (rule Decode_append)
  have b: "stdout (GetUser w user p) = stdout p @ format_profile zero_GitHubUser"
    if "http_Get w (user_url user) = Inr resp" and "Body resp = ''null'' @ trailing"
    using that n GetUser_decoded [of w user resp zero_GitHubUser p] by simp
  show ?thesis using a n b by blast
qed

theorem trailing_bytes_ignored_witness:
  \<open>Decode ''{"login":"x"}'' zero_GitHubUser =
     (\<lparr>Login = ''x'', Name = [], Followers = 0, Following = 0\<rparr>, None)
   \<and> Decode (''{"login":"x"}'' @ ''}] trailing'') zero_GitHubUser =
       (\<lparr>Login = ''x'', Name = [], Followers = 0, Following = 0\<rparr>, None)
   \<and> http_Get (stub_world (''null'' @ ''x'')) (user_url ''facebook'') =
       Inr \<lparr>StatusCode = 200, Body = ''null'' @ ''x''\<rparr>
   \<and> stdout (GetUser (stub_world (''null'' @ ''x'')) ''facebook'' (start no_environ)) =
       format_profile zero_GitHubUser\<close>
proof -
  have d: \<open>Decode ''{"login":"x"}'' zero_GitHubUser =
     (\<lparr>Login = ''x'', Name = [], Followers = 0, Following = 0\<rparr>, None)\<close>
    by code_simp
  have g: "http_Get (stub_world (''null'' @ ''x'')) (user_url ''facebook'') =
       Inr \<lparr>StatusCode = 200, Body = ''null'' @ ''x''\<rparr>"
    by (simp add: stub_world_def)
  have b: "Body \<lparr>StatusCode = 200, Body = ''null'' @ ''x''\<rparr> = ''null'' @ ''x''"
    by simp
  note t1 = trailing_bytes_ignored [of \<open>''{"login":"x"}''\<close>
      "\<lparr>Login = ''x'', Name = [], Followers = 0, Following = 0\<rparr>" "''}] trailing''"]
  note t2 = trailing_bytes_ignored [of _ _ "''x''" "stub_world (''null'' @ ''x'')" "''facebook''"
      "\<lparr>StatusCode = 200, Body = ''null'' @ ''x''\<rparr>" "start no_environ"]
  have c1: \<open>Decode (''{"login":"x"}'' @ ''}] trailing'') zero_GitHubUser =
       (\<lparr>Login = ''x'', Name = [], Followers = 0, Following = 0\<rparr>, None)\<close>
    using t1 d by blast
  have c2: "stdout (GetUser (stub_world (''null'' @ ''x'')) ''facebook'' (start no_environ)) =
       stdout (start no_environ) @ format_profile zero_GitHubUser"
    using t2 g b by blast
  show ?thesis
    using d c1 g c2 by (simp del: append.simps)
qed

text \<open>
  C10 as the specification states it fails: \<open>[]\<close> is one valid JSON value, and the body
  made of it and the trailing bytes \<open>xyz\<close> does not decode successfully; the lookup
  prints the decoding error.
\<close>

theorem valid_value_not_decoded_counterexample:
  "readValue ''[]xyz'' = Inr (JArray [], ''xyz'')
   \<and> snd (Decode ''[]xyz'' zero_GitHubUser) = Some (UnmarshalTypeError ''array'')
   \<and> stdout (GetUser (stub_world ''[]xyz'') ''facebook'' (start no_environ)) =
       msg_decode @ '' decoding failed'' @ newline"
proof -
  have r: "readValue ''[]xyz'' = Inr (JArray [], ''xyz'')"
    by code_simp
  have d: "Decode ''[]xyz'' zero_GitHubUser = (zero_GitHubUser, Some (UnmarshalTypeError ''array''))"
    by code_simp
  have g: "http_Get (stub_world ''[]xyz'') (user_url ''facebook'') =
             Inr \<lparr>StatusCode = 200, Body = ''[]xyz''\<rparr>"
    by (simp add: stub_world_def)
  have "stdout (GetUser (stub_world ''[]xyz'') ''facebook'' (start no_environ)) =
          stdout (start no_environ) @ msg_decode @ '' '' @
          error_text (stub_world ''[]xyz'') (UnmarshalTypeError ''array'') @ newline"
  proof (rule GetUser_decode_error [OF g])
    show "snd (Decode (Body \<lparr>StatusCode = 200, Body = ''[]xyz''\<rparr>) zero_GitHubUser) =
            Some (UnmarshalTypeError ''array'')"
      by (simp add: d)
  qed
  then show ?thesis
    using r d by (simp add: stub_world_def stub_error_text_def)
qed

end
